theory Spec2Isabelle
  imports Main "HOL-Library.Multiset"
begin

section \<open>The Go runtime objects used by package cc\<close>

text \<open>
  The package is sixty lines of Go built from three runtime primitives: channels,
  a \<^verbatim>\<open>sync.WaitGroup\<close> and goroutines. The embedding is an interleaving
  semantics: a state holds the Pool's objects and the program counter of every goroutine
  the Pool has spawned, and one step executes one statement of one goroutine (or one call
  of the caller). A statement that cannot complete in a state is not enabled there; a
  statement that makes the Go runtime panic ends the program.

  What is outside the model: the limit of \<^verbatim>\<open>make\<close> on very large sizes and the
  overflow of the WaitGroup counter; the runtime's report that all goroutines of the
  program are asleep, which depends on the rest of the program; and units that panic or
  never return (a unit that never returns is a worker that takes no further step).

  A \<^verbatim>\<open>sync.WaitGroup\<close> is a counter and a number of sleeping waiters.
  \<^verbatim>\<open>Add(1)\<close> increments the counter, and panics when that makes the counter 1 while
  waiters sleep. \<^verbatim>\<open>Done()\<close> decrements the counter, panics when it was zero, and when
  it reaches zero while waiters sleep wakes them in a second step, which panics if the
  counter is not zero any more. \<^verbatim>\<open>Wait()\<close> returns at once when the counter is zero;
  otherwise the caller sleeps, and when it has been woken it panics unless the counter
  is zero and no waiter sleeps.
\<close>

datatype panic =
    MakeChanSize      \<comment> \<open>\<^verbatim>\<open>makechan: size out of range\<close>\<close>
  | SendOnClosed      \<comment> \<open>\<^verbatim>\<open>send on closed channel\<close>\<close>
  | CloseOfClosed     \<comment> \<open>\<^verbatim>\<open>close of closed channel\<close>\<close>
  | NegativeCounter   \<comment> \<open>\<^verbatim>\<open>sync: negative WaitGroup counter\<close>\<close>
  | NilDereference    \<comment> \<open>\<^verbatim>\<open>invalid memory address or nil pointer dereference\<close>\<close>
  | WaitGroupMisuse   \<comment> \<open>\<^verbatim>\<open>sync: WaitGroup misuse: Add called concurrently with Wait\<close>\<close>
  | WaitGroupReused   \<comment> \<open>\<^verbatim>\<open>sync: WaitGroup is reused before previous Wait has returned\<close>\<close>

datatype 'a outcome =
    Ok 'a             \<comment> \<open>the statement completes\<close>
  | Blocks            \<comment> \<open>the statement cannot complete in this state\<close>
  | Panics panic      \<comment> \<open>the runtime panics: the program ends\<close>

fun and_then :: "'a outcome \<Rightarrow> ('a \<Rightarrow> 'b outcome) \<Rightarrow> 'b outcome" where
  "and_then (Ok x) f = f x"
| "and_then Blocks f = Blocks"
| "and_then (Panics p) f = Panics p"

subsection \<open>Channels\<close>

record 'a chan =
  ch_cap :: nat
  ch_buf :: "'a list"
  ch_closed :: bool

text \<open>\<^verbatim>\<open>make(chan T, size)\<close>; \<^verbatim>\<open>make(chan T)\<close> is size 0. A negative size
  panics at run time.\<close>

definition make_chan :: "int \<Rightarrow> 'a chan outcome" where
  "make_chan n =
     (if n < 0 then Panics MakeChanSize
      else Ok \<lparr>ch_cap = nat n, ch_buf = [], ch_closed = False\<rparr>)"

text \<open>A send that needs no partner: it panics on a closed channel, it appends to the
  buffer when there is room, and otherwise the sender waits.\<close>

definition chan_send :: "'a \<Rightarrow> 'a chan \<Rightarrow> 'a chan outcome" where
  "chan_send v c =
     (if ch_closed c then Panics SendOnClosed
      else if length (ch_buf c) < ch_cap c then Ok (c\<lparr>ch_buf := ch_buf c @ [v]\<rparr>)
      else Blocks)"

text \<open>A receive that needs no partner: it takes the oldest buffered value; on an empty
  closed channel it returns at once with no value; otherwise the receiver waits.\<close>

definition chan_recv :: "'a chan \<Rightarrow> ('a option \<times> 'a chan) outcome" where
  "chan_recv c =
     (case ch_buf c of
        v # vs \<Rightarrow> Ok (Some v, c\<lparr>ch_buf := vs\<rparr>)
      | [] \<Rightarrow> if ch_closed c then Ok (None, c) else Blocks)"

text \<open>A waiting receiver (the channel is open and its buffer is empty) takes the value
  of a sender directly: both statements complete in one step.\<close>

definition can_rendezvous :: "'a chan \<Rightarrow> bool" where
  "can_rendezvous c = (\<not> ch_closed c \<and> ch_buf c = [])"

definition chan_close :: "'a chan \<Rightarrow> 'a chan outcome" where
  "chan_close c = (if ch_closed c then Panics CloseOfClosed else Ok (c\<lparr>ch_closed := True\<rparr>))"

section \<open>The Pool and its goroutines\<close>

text \<open>
  The goroutine started by \<^verbatim>\<open>Run\<close> executes, in this order,
  \<^verbatim>\<open>p.semaphore <- true\<close> (line 52), \<^verbatim>\<open>fn()\<close> (line 57), and the deferred
  \<^verbatim>\<open><-p.semaphore\<close> (line 54) and \<^verbatim>\<open>p.wg.Done()\<close> (line 55). A worker stands at
  \<open>AtWake\<close> inside \<^verbatim>\<open>p.wg.Done()\<close>, when its decrement has made the counter zero and
  it has still to wake the sleeping waiters.
  A unit \<^verbatim>\<open>fn\<close> is modelled by the values it sends on \<^verbatim>\<open>p.Errors\<close>, in
  order, before it returns: none, one as the package documents, or several. A unit that
  calls \<^verbatim>\<open>p.Run\<close> or \<^verbatim>\<open>p.Wait\<close> is covered by the calls of the semantics, which
  any goroutine may make at any time.
\<close>

datatype worker_pc = AtAcquire | InBody | AtRelease | AtDone | AtWake | Exited

record 'e worker =
  pc :: worker_pc
  todo :: "'e list"

text \<open>The goroutine started by \<^verbatim>\<open>Wait\<close> executes \<^verbatim>\<open>p.wg.Wait()\<close> (line 42),
  \<^verbatim>\<open>close(p.Errors)\<close> (line 43) and \<^verbatim>\<open>close(p.semaphore)\<close> (line 44). Inside
  \<^verbatim>\<open>p.wg.Wait()\<close> it is \<open>Parked\<close> while it sleeps and \<open>Woken\<close> when a
  \<^verbatim>\<open>Done\<close> has woken it and it has still to check the WaitGroup.\<close>

datatype waiter_pc = AtWgWait | Parked | Woken | AtCloseErrors | AtCloseSem | WaiterExited

text \<open>
  The first four fields are the struct \<^verbatim>\<open>Pool\<close>, the WaitGroup being its counter
  \<open>wg\<close> and the number \<open>wg_sleepers\<close> of its sleeping waiters.
  The others are the goroutines spawned so far and the consumer's
  \<^verbatim>\<open>for err := range p.Errors\<close> loop: the values it has received and whether it
  has ended.
\<close>

record 'e state =
  Errors :: "'e chan"
  semaphore :: "bool chan"
  wg :: nat
  wg_sleepers :: nat
  workers :: "'e worker list"
  waiters :: "waiter_pc list"
  drained :: "'e list"
  drain_done :: bool

text \<open>\<^verbatim>\<open>New\<close>, lines 28 to 37.\<close>

definition New :: "int \<Rightarrow> 'e state outcome" where
  "New concurrency =
     and_then (make_chan 0) (\<lambda>e.
     and_then (make_chan concurrency) (\<lambda>sm.
       Ok \<lparr>Errors = e, semaphore = sm, wg = 0, wg_sleepers = 0, workers = [], waiters = [],
           drained = [], drain_done = False\<rparr>))"

text \<open>
  The steps. \<open>CallRun fn\<close> and \<open>CallWait\<close> are the two methods, called by any
  goroutine of the program. The others are one statement of worker \<open>i\<close> or of waiter
  \<open>k\<close>, or one receive of the consumer:
  \<^item> \<open>Acquire i\<close>: the send of line 52 into the buffer;
  \<^item> \<open>Handoff i j\<close>: the send of line 52 by worker \<open>i\<close> taken directly by the receive
    of line 54 of worker \<open>j\<close>;
  \<^item> \<open>Push i\<close>: a send of the unit on \<^verbatim>\<open>p.Errors\<close> that needs no receiver;
  \<^item> \<open>Deliver i\<close>: a send of the unit on \<^verbatim>\<open>p.Errors\<close> taken directly by the
    consumer's receive;
  \<^item> \<open>Return i\<close>: \<^verbatim>\<open>fn\<close> returns and the deferred function starts;
  \<^item> \<open>Release i\<close>: the receive of line 54 without a sender;
  \<^item> \<open>Done i\<close>: the decrement of line 55;
  \<^item> \<open>Wake i\<close>: the wake-up of the sleeping waiters that ends line 55;
  \<^item> \<open>WgWait k\<close>, \<open>CloseErrors k\<close>, \<open>CloseSem k\<close>: lines 42, 43, 44;
  \<^item> \<open>Resume k\<close>: the return from line 42 of a waiter that has been woken;
  \<^item> \<open>Recv\<close>: a receive of the consumer without a sender.
  The consumer is the loop \<^verbatim>\<open>for err := range p.Errors\<close> of the package's
  documentation: once it has seen the channel closed it receives no more.
\<close>

datatype 'e action =
    CallRun "'e list"
  | CallWait
  | Acquire nat
  | Handoff nat nat
  | Push nat
  | Deliver nat
  | Return nat
  | Release nat
  | Done nat
  | Wake nat
  | WgWait nat
  | Resume nat
  | CloseErrors nat
  | CloseSem nat
  | Recv

definition worker_at :: "'e state \<Rightarrow> nat \<Rightarrow> worker_pc \<Rightarrow> bool" where
  "worker_at s i p = (i < length (workers s) \<and> pc (workers s ! i) = p)"

definition waiter_at :: "'e state \<Rightarrow> nat \<Rightarrow> waiter_pc \<Rightarrow> bool" where
  "waiter_at s k p = (k < length (waiters s) \<and> waiters s ! k = p)"

definition move_worker :: "nat \<Rightarrow> worker_pc \<Rightarrow> 'e worker list \<Rightarrow> 'e worker list" where
  "move_worker i p ws = ws[i := (ws ! i)\<lparr>pc := p\<rparr>]"

text \<open>A sleeping waiter is woken; the others stay where they are.\<close>

fun wake :: "waiter_pc \<Rightarrow> waiter_pc" where
  "wake Parked = Woken"
| "wake p = p"

fun step :: "'e action \<Rightarrow> 'e state \<Rightarrow> 'e state outcome" where
  "step (CallRun fn) s =
     (if wg s = 0 \<and> wg_sleepers s \<noteq> 0 then Panics WaitGroupMisuse
      else Ok (s\<lparr>wg := wg s + 1, workers := workers s @ [\<lparr>pc = AtAcquire, todo = fn\<rparr>]\<rparr>))"
| "step CallWait s =
     Ok (s\<lparr>waiters := waiters s @ [AtWgWait]\<rparr>)"
| "step (Acquire i) s =
     (if worker_at s i AtAcquire
      then and_then (chan_send True (semaphore s)) (\<lambda>c.
             Ok (s\<lparr>semaphore := c, workers := move_worker i InBody (workers s)\<rparr>))
      else Blocks)"
| "step (Handoff i j) s =
     (if worker_at s i AtAcquire \<and> worker_at s j AtRelease \<and> can_rendezvous (semaphore s)
      then Ok (s\<lparr>workers := move_worker j AtDone (move_worker i InBody (workers s))\<rparr>)
      else Blocks)"
| "step (Push i) s =
     (if worker_at s i InBody
      then (case todo (workers s ! i) of
              [] \<Rightarrow> Blocks
            | v # vs \<Rightarrow> and_then (chan_send v (Errors s)) (\<lambda>c.
                Ok (s\<lparr>Errors := c, workers := (workers s)[i := (workers s ! i)\<lparr>todo := vs\<rparr>]\<rparr>)))
      else Blocks)"
| "step (Deliver i) s =
     (if worker_at s i InBody \<and> can_rendezvous (Errors s) \<and> \<not> drain_done s
      then (case todo (workers s ! i) of
              [] \<Rightarrow> Blocks
            | v # vs \<Rightarrow>
                Ok (s\<lparr>workers := (workers s)[i := (workers s ! i)\<lparr>todo := vs\<rparr>],
                      drained := drained s @ [v]\<rparr>))
      else Blocks)"
| "step (Return i) s =
     (if worker_at s i InBody \<and> todo (workers s ! i) = []
      then Ok (s\<lparr>workers := move_worker i AtRelease (workers s)\<rparr>)
      else Blocks)"
| "step (Release i) s =
     (if worker_at s i AtRelease
      then and_then (chan_recv (semaphore s)) (\<lambda>(_, c).
             Ok (s\<lparr>semaphore := c, workers := move_worker i AtDone (workers s)\<rparr>))
      else Blocks)"
| "step (Done i) s =
     (if worker_at s i AtDone
      then (if wg s = 0 then Panics NegativeCounter
            else if wg s = 1 \<and> wg_sleepers s \<noteq> 0
            then Ok (s\<lparr>wg := 0, workers := move_worker i AtWake (workers s)\<rparr>)
            else Ok (s\<lparr>wg := wg s - 1, workers := move_worker i Exited (workers s)\<rparr>))
      else Blocks)"
| "step (Wake i) s =
     (if worker_at s i AtWake
      then (if wg s \<noteq> 0 then Panics WaitGroupMisuse
            else Ok (s\<lparr>wg_sleepers := 0, workers := move_worker i Exited (workers s),
                      waiters := map wake (waiters s)\<rparr>))
      else Blocks)"
| "step (WgWait k) s =
     (if waiter_at s k AtWgWait
      then (if wg s = 0 then Ok (s\<lparr>waiters := (waiters s)[k := AtCloseErrors]\<rparr>)
            else Ok (s\<lparr>wg_sleepers := wg_sleepers s + 1, waiters := (waiters s)[k := Parked]\<rparr>))
      else Blocks)"
| "step (Resume k) s =
     (if waiter_at s k Woken
      then (if wg s \<noteq> 0 \<or> wg_sleepers s \<noteq> 0 then Panics WaitGroupReused
            else Ok (s\<lparr>waiters := (waiters s)[k := AtCloseErrors]\<rparr>))
      else Blocks)"
| "step (CloseErrors k) s =
     (if waiter_at s k AtCloseErrors
      then and_then (chan_close (Errors s)) (\<lambda>c.
             Ok (s\<lparr>Errors := c, waiters := (waiters s)[k := AtCloseSem]\<rparr>))
      else Blocks)"
| "step (CloseSem k) s =
     (if waiter_at s k AtCloseSem
      then and_then (chan_close (semaphore s)) (\<lambda>c.
             Ok (s\<lparr>semaphore := c, waiters := (waiters s)[k := WaiterExited]\<rparr>))
      else Blocks)"
| "step Recv s =
     (if drain_done s then Blocks
      else and_then (chan_recv (Errors s)) (\<lambda>(r, c).
             case r of
               Some v \<Rightarrow> Ok (s\<lparr>Errors := c, drained := drained s @ [v]\<rparr>)
             | None \<Rightarrow> Ok (s\<lparr>drain_done := True\<rparr>)))"

text \<open>A schedule is a list of steps; it runs from a state until a step is not enabled
  or panics.\<close>

primrec exec :: "'e action list \<Rightarrow> 'e state \<Rightarrow> 'e state outcome" where
  "exec [] s = Ok s"
| "exec (a # as) s = and_then (step a s) (exec as)"

text \<open>A schedule run on a fresh Pool.\<close>

definition play :: "int \<Rightarrow> 'e action list \<Rightarrow> 'e state outcome" where
  "play concurrency as = and_then (New concurrency) (exec as)"

section \<open>What is observed of a state and of a schedule\<close>

text \<open>A worker holds a permit from its send of line 52 to its receive of line 54:
  while it runs \<^verbatim>\<open>fn\<close> and until the deferred receive completes.\<close>

definition holds_permit :: "'e worker \<Rightarrow> bool" where
  "holds_permit w = (pc w = InBody \<or> pc w = AtRelease)"

definition running :: "'e state \<Rightarrow> nat" where
  "running s = length (filter holds_permit (workers s))"

text \<open>The workers that have not decremented the counter yet.\<close>

definition counted :: "'e worker \<Rightarrow> bool" where
  "counted w = (pc w \<noteq> AtWake \<and> pc w \<noteq> Exited)"

definition outstanding :: "'e state \<Rightarrow> nat" where
  "outstanding s = length (filter counted (workers s))"

text \<open>The values the units have still to send.\<close>

definition pending :: "'e state \<Rightarrow> 'e list" where
  "pending s = concat (map todo (workers s))"

text \<open>The calls of a schedule, and the values of the units it submits.\<close>

fun is_call :: "'e action \<Rightarrow> bool" where
  "is_call (CallRun fn) = True"
| "is_call CallWait = True"
| "is_call a = False"

fun unit_of :: "'e action \<Rightarrow> 'e list" where
  "unit_of (CallRun fn) = fn"
| "unit_of a = []"

definition submitted :: "'e action list \<Rightarrow> 'e list" where
  "submitted as = concat (map unit_of as)"

fun is_run :: "'e action \<Rightarrow> bool" where
  "is_run (CallRun fn) = True"
| "is_run a = False"

definition submissions :: "'e action list \<Rightarrow> nat" where
  "submissions as = length (filter is_run as)"

text \<open>The documented use of a Pool: \<^verbatim>\<open>Wait\<close> is called at most once, and no
  \<^verbatim>\<open>Run\<close> is called after it.\<close>

fun disciplined :: "'e action list \<Rightarrow> bool" where
  "disciplined [] = True"
| "disciplined (CallWait # as) = list_all (\<lambda>a. \<not> is_call a) as"
| "disciplined (a # as) = disciplined as"

text \<open>The facts that hold in every state a schedule reaches from a fresh Pool.\<close>

definition sem_inv :: "'e state \<Rightarrow> bool" where
  "sem_inv s =
     (length (ch_buf (semaphore s)) = running s \<and>
      length (ch_buf (semaphore s)) \<le> ch_cap (semaphore s))"

definition err_inv :: "'e state \<Rightarrow> bool" where
  "err_inv s = (ch_cap (Errors s) = 0 \<and> ch_buf (Errors s) = [])"

text \<open>The counter is the number of workers that have not decremented it; the sleepers
  are the parked waiters; and a worker is waking them exactly when the counter is zero
  and there are sleepers.\<close>

definition sleeping :: "'e state \<Rightarrow> nat" where
  "sleeping s = length (filter (\<lambda>p. p = Parked) (waiters s))"

definition waking :: "'e state \<Rightarrow> nat" where
  "waking s = length (filter (\<lambda>w. pc w = AtWake) (workers s))"

definition wg_inv :: "'e state \<Rightarrow> bool" where
  "wg_inv s =
     (wg s = outstanding s \<and> wg_sleepers s = sleeping s \<and>
      waking s = (if wg s = 0 \<and> wg_sleepers s \<noteq> 0 then 1 else 0))"

definition past_close_errors :: "waiter_pc \<Rightarrow> bool" where
  "past_close_errors p = (p = AtCloseSem \<or> p = WaiterExited)"

definition close_inv :: "'e state \<Rightarrow> bool" where
  "close_inv s =
     ((ch_closed (Errors s) \<longleftrightarrow> list_ex past_close_errors (waiters s)) \<and>
      (ch_closed (semaphore s) \<longleftrightarrow> list_ex (\<lambda>p. p = WaiterExited) (waiters s)) \<and>
      (drain_done s \<longrightarrow> ch_closed (Errors s)))"

definition todo_inv :: "'e state \<Rightarrow> bool" where
  "todo_inv s =
     list_all (\<lambda>w. pc w \<noteq> AtAcquire \<and> pc w \<noteq> InBody \<longrightarrow> todo w = [])
       (workers s)"

definition pool_inv :: "'e state \<Rightarrow> bool" where
  "pool_inv s = (sem_inv s \<and> err_inv s \<and> wg_inv s \<and> close_inv s \<and> todo_inv s)"

text \<open>Under the documented use there is at most one waiter, and once it has been woken
  or has returned from \<^verbatim>\<open>p.wg.Wait()\<close> the counter stays at zero.\<close>

definition use_inv :: "'e state \<Rightarrow> bool" where
  "use_inv s =
     (length (waiters s) \<le> 1 \<and>
      (list_ex (\<lambda>p. p \<noteq> AtWgWait \<and> p \<noteq> Parked) (waiters s) \<longrightarrow> wg s = 0))"

text \<open>The number of \<^verbatim>\<open>Wait\<close> calls of a schedule, of the steps that are not calls,
  and of the \<^verbatim>\<open>p.wg.Done()\<close> steps.\<close>

definition waits :: "'e action list \<Rightarrow> nat" where
  "waits as = length (filter (\<lambda>a. a = CallWait) as)"

definition internal_steps :: "'e action list \<Rightarrow> nat" where
  "internal_steps as = length (filter (\<lambda>a. \<not> is_call a) as)"

fun is_done :: "'e action \<Rightarrow> bool" where
  "is_done (Done i) = True"
| "is_done a = False"

definition dones :: "'e action list \<Rightarrow> nat" where
  "dones as = length (filter is_done as)"



text \<open>The statements a goroutine has still to execute, and those of a whole state; the
  statements a call adds.\<close>

fun worker_left :: "'e worker \<Rightarrow> nat" where
  "worker_left w =
     (case pc w of
        AtAcquire \<Rightarrow> 5 + length (todo w)
      | InBody \<Rightarrow> 4 + length (todo w)
      | AtRelease \<Rightarrow> 3
      | AtDone \<Rightarrow> 2
      | AtWake \<Rightarrow> 1
      | Exited \<Rightarrow> 0)"

fun waiter_left :: "waiter_pc \<Rightarrow> nat" where
  "waiter_left AtWgWait = 5"
| "waiter_left Parked = 4"
| "waiter_left Woken = 3"
| "waiter_left AtCloseErrors = 2"
| "waiter_left AtCloseSem = 1"
| "waiter_left WaiterExited = 0"

definition remaining :: "'e state \<Rightarrow> nat" where
  "remaining s =
     sum_list (map worker_left (workers s)) + sum_list (map waiter_left (waiters s)) +
     (if drain_done s then 0 else 1)"

fun cost :: "'e action \<Rightarrow> nat" where
  "cost (CallRun fn) = 5 + length fn"
| "cost CallWait = 5"
| "cost a = 0"

definition budget :: "'e action list \<Rightarrow> nat" where
  "budget as = 1 + sum_list (map cost as)"

text \<open>The steps that lead from a counter at zero to the closed channels: the wake-up
  that ends \<^verbatim>\<open>p.wg.Done()\<close> and the statements of the waiter.\<close>

fun is_closing :: "'e action \<Rightarrow> bool" where
  "is_closing (Wake i) = True"
| "is_closing (WgWait k) = True"
| "is_closing (Resume k) = True"
| "is_closing (CloseErrors k) = True"
| "is_closing (CloseSem k) = True"
| "is_closing a = False"

text \<open>The number of executions of line 43 and of line 44 in a schedule.\<close>

fun is_close_errors :: "'e action \<Rightarrow> bool" where
  "is_close_errors (CloseErrors k) = True"
| "is_close_errors a = False"

fun is_close_semaphore :: "'e action \<Rightarrow> bool" where
  "is_close_semaphore (CloseSem k) = True"
| "is_close_semaphore a = False"

definition closes_errors :: "'e action list \<Rightarrow> nat" where
  "closes_errors as = length (filter is_close_errors as)"

definition closes_semaphore :: "'e action list \<Rightarrow> nat" where
  "closes_semaphore as = length (filter is_close_semaphore as)"

text \<open>The workers that wait for a permit at line 52.\<close>

definition waiting :: "'e state \<Rightarrow> nat" where
  "waiting s = length (filter (\<lambda>w. pc w = AtAcquire) (workers s))"

text \<open>The statements of the goroutine of \<^verbatim>\<open>Run\<close>, in the order of the program:
  line 52, a send inside \<^verbatim>\<open>fn\<close>, the return of \<^verbatim>\<open>fn\<close>, line 54, the
  decrement of line 55 and the wake-up that may end it.
  \<open>stmts_of i a\<close> are the statements of worker \<open>i\<close> that the step \<open>a\<close> executes.\<close>

datatype stmt = SAcquire | SPush | SReturn | SRelease | SDone | SWake

fun stmts_of :: "nat \<Rightarrow> 'e action \<Rightarrow> stmt list" where
  "stmts_of i (Acquire j) = (if j = i then [SAcquire] else [])"
| "stmts_of i (Handoff j k) =
     (if j = i then [SAcquire] else []) @ (if k = i then [SRelease] else [])"
| "stmts_of i (Push j) = (if j = i then [SPush] else [])"
| "stmts_of i (Deliver j) = (if j = i then [SPush] else [])"
| "stmts_of i (Return j) = (if j = i then [SReturn] else [])"
| "stmts_of i (Release j) = (if j = i then [SRelease] else [])"
| "stmts_of i (Done j) = (if j = i then [SDone] else [])"
| "stmts_of i (Wake j) = (if j = i then [SWake] else [])"
| "stmts_of i a = []"

fun line_order :: "stmt \<Rightarrow> nat" where
  "line_order SAcquire = 0"
| "line_order SPush = 1"
| "line_order SReturn = 2"
| "line_order SRelease = 3"
| "line_order SDone = 4"
| "line_order SWake = 5"

text \<open>The statements every worker that goes on executes; a send and the wake-up are
  executed or not, as the unit and the WaitGroup have it.\<close>

fun always_executed :: "stmt \<Rightarrow> bool" where
  "always_executed SPush = False"
| "always_executed SWake = False"
| "always_executed x = True"

text \<open>Where a worker stands before each of its statements and how far it has got at
  least after it (after the decrement it wakes the waiters or has exited).\<close>

fun pre_pc :: "stmt \<Rightarrow> worker_pc" where
  "pre_pc SAcquire = AtAcquire"
| "pre_pc SPush = InBody"
| "pre_pc SReturn = InBody"
| "pre_pc SRelease = AtRelease"
| "pre_pc SDone = AtDone"
| "pre_pc SWake = AtWake"

fun post_pc :: "stmt \<Rightarrow> worker_pc" where
  "post_pc SAcquire = InBody"
| "post_pc SPush = InBody"
| "post_pc SReturn = AtRelease"
| "post_pc SRelease = AtDone"
| "post_pc SDone = AtWake"
| "post_pc SWake = Exited"

fun rank :: "worker_pc \<Rightarrow> nat" where
  "rank AtAcquire = 0"
| "rank InBody = 1"
| "rank AtRelease = 2"
| "rank AtDone = 3"
| "rank AtWake = 4"
| "rank Exited = 5"

text \<open>The number of executions of line 55 by worker \<open>i\<close> in a schedule.\<close>

definition done_count :: "nat \<Rightarrow> 'e action list \<Rightarrow> nat" where
  "done_count i as = length (filter (\<lambda>a. a = Done i) as)"

text \<open>Every worker is still waiting for a permit.\<close>

definition all_waiting :: "'e state \<Rightarrow> bool" where
  "all_waiting s = list_all (\<lambda>w. pc w = AtAcquire) (workers s)"

section \<open>Several Pools in one program\<close>

text \<open>
  The objects of a program live in its heap, one table for each type of object, and are
  referred to by their address in the table; a WaitGroup is the pair of its counter and
  its number of sleeping waiters. The struct \<^verbatim>\<open>Pool\<close> holds two channel
  references and a pointer to a WaitGroup; \<^verbatim>\<open>New\<close> allocates the WaitGroup (line 29),
  the two channels (lines 31 and 33) and the struct (line 30), and returns the address of
  the struct (line 36). A goroutine started by a method of a Pool holds the pointer
  \<^verbatim>\<open>p\<close> it was started with, and reaches the channels and the WaitGroup through it.
\<close>

type_synonym addr = nat

record pool_struct =
  Errors_at :: addr
  semaphore_at :: addr
  wg_at :: addr

text \<open>The goroutines that hold the pointer to one Pool, and the consumer of its
  \<^verbatim>\<open>Errors\<close>.\<close>

record 'e gang =
  g_workers :: "'e worker list"
  g_waiters :: "waiter_pc list"
  g_drained :: "'e list"
  g_drain_done :: bool

record 'e heap =
  error_chans :: "'e chan list"
  bool_chans :: "bool chan list"
  wait_groups :: "(nat \<times> nat) list"
  pools :: "pool_struct list"
  gangs :: "'e gang list"

definition empty_heap :: "'e heap" where
  "empty_heap = \<lparr>error_chans = [], bool_chans = [], wait_groups = [], pools = [], gangs = []\<rparr>"

text \<open>\<^verbatim>\<open>New\<close> on the heap, lines 28 to 37: the new objects are put at fresh
  addresses.\<close>

definition heap_New :: "int \<Rightarrow> 'e heap \<Rightarrow> (addr \<times> 'e heap) outcome" where
  "heap_New concurrency h =
     and_then (make_chan 0) (\<lambda>e.
     and_then (make_chan concurrency) (\<lambda>sm.
       Ok (length (pools h),
           h\<lparr>wait_groups := wait_groups h @ [(0, 0)],
             error_chans := error_chans h @ [e],
             bool_chans := bool_chans h @ [sm],
             pools := pools h @ [\<lparr>Errors_at = length (error_chans h),
                                   semaphore_at = length (bool_chans h),
                                   wg_at = length (wait_groups h)\<rparr>],
             gangs := gangs h @ [\<lparr>g_workers = [], g_waiters = [], g_drained = [],
                                   g_drain_done = False\<rparr>]\<rparr>)))"

text \<open>What the goroutines of the Pool at \<open>p\<close> see through the pointer, and the heap
  after they have changed it. A pointer that is not the address of a Pool cannot be
  dereferenced.\<close>

definition load :: "addr \<Rightarrow> 'e heap \<Rightarrow> 'e state option" where
  "load p h =
     (if p < length (pools h) \<and> p < length (gangs h) \<and>
         Errors_at (pools h ! p) < length (error_chans h) \<and>
         semaphore_at (pools h ! p) < length (bool_chans h) \<and>
         wg_at (pools h ! p) < length (wait_groups h)
      then Some \<lparr>Errors = error_chans h ! Errors_at (pools h ! p),
                 semaphore = bool_chans h ! semaphore_at (pools h ! p),
                 wg = fst (wait_groups h ! wg_at (pools h ! p)),
                 wg_sleepers = snd (wait_groups h ! wg_at (pools h ! p)),
                 workers = g_workers (gangs h ! p),
                 waiters = g_waiters (gangs h ! p),
                 drained = g_drained (gangs h ! p),
                 drain_done = g_drain_done (gangs h ! p)\<rparr>
      else None)"

definition store :: "addr \<Rightarrow> 'e state \<Rightarrow> 'e heap \<Rightarrow> 'e heap" where
  "store p s h =
     h\<lparr>error_chans := (error_chans h)[Errors_at (pools h ! p) := Errors s],
       bool_chans := (bool_chans h)[semaphore_at (pools h ! p) := semaphore s],
       wait_groups := (wait_groups h)[wg_at (pools h ! p) := (wg s, wg_sleepers s)],
       gangs := (gangs h)[p := \<lparr>g_workers = workers s, g_waiters = waiters s,
                                g_drained = drained s, g_drain_done = drain_done s\<rparr>]\<rparr>"

text \<open>One step of the Pool at \<open>p\<close>: a call of \<^verbatim>\<open>p.Run\<close> or \<^verbatim>\<open>p.Wait\<close>, a
  statement of one of its goroutines, or a receive from \<^verbatim>\<open>p.Errors\<close>.\<close>

definition on_pool :: "addr \<Rightarrow> 'e action \<Rightarrow> 'e heap \<Rightarrow> 'e heap outcome" where
  "on_pool p a h =
     (case load p h of
        None \<Rightarrow> Panics NilDereference
      | Some s \<Rightarrow> and_then (step a s) (\<lambda>s'. Ok (store p s' h)))"

text \<open>A program calls \<^verbatim>\<open>New\<close> and takes steps on Pools, in any order; \<open>made\<close> are
  the pointers that the calls of \<^verbatim>\<open>New\<close> have returned so far.\<close>

datatype 'e cmd = MkPool int | On addr "'e action"

record 'e prog =
  heap :: "'e heap"
  made :: "addr list"

fun cmd_step :: "'e cmd \<Rightarrow> 'e prog \<Rightarrow> 'e prog outcome" where
  "cmd_step (MkPool c) g =
     and_then (heap_New c (heap g)) (\<lambda>(p, h). Ok \<lparr>heap = h, made = made g @ [p]\<rparr>)"
| "cmd_step (On p a) g =
     and_then (on_pool p a (heap g)) (\<lambda>h. Ok (g\<lparr>heap := h\<rparr>))"

primrec run :: "'e cmd list \<Rightarrow> 'e prog \<Rightarrow> 'e prog outcome" where
  "run [] g = Ok g"
| "run (c # cs) g = and_then (cmd_step c g) (run cs)"

definition start :: "'e prog" where
  "start = \<lparr>heap = empty_heap, made = []\<rparr>"

text \<open>In every heap a program reaches, distinct Pools refer to distinct objects, all of
  them allocated.\<close>

definition heap_inv :: "'e heap \<Rightarrow> bool" where
  "heap_inv h =
     (length (error_chans h) = length (pools h) \<and>
      length (bool_chans h) = length (pools h) \<and>
      length (wait_groups h) = length (pools h) \<and>
      length (gangs h) = length (pools h) \<and>
      (\<forall>p < length (pools h).
         pools h ! p = \<lparr>Errors_at = p, semaphore_at = p, wg_at = p\<rparr>))"

definition prog_inv :: "'e prog \<Rightarrow> bool" where
  "prog_inv g = (heap_inv (heap g) \<and> made g = [0..<length (pools (heap g))])"

section \<open>Schedules, and the inversion of a step\<close>

lemma exec_append: "exec (as @ bs) s = and_then (exec as s) (exec bs)"
proof (induction as arbitrary: s)
  case Nil
  show ?case by simp
next
  case (Cons a as)
  show ?case by (cases "step a s") (simp_all add: Cons.IH)
qed

lemma and_then_Ok: "and_then x f = Ok y \<longleftrightarrow> (\<exists>z. x = Ok z \<and> f z = Ok y)"
  by (cases x) auto

lemma exec_snoc_Ok:
  "exec (as @ [a]) s = Ok t \<longleftrightarrow> (\<exists>m. exec as s = Ok m \<and> step a m = Ok t)"
  by (simp add: exec_append and_then_Ok)

lemma count_update:
  "i < length xs \<Longrightarrow>
   length (filter P (xs[i := y])) + (if P (xs ! i) then 1 else 0) =
   length (filter P xs) + (if P y then 1 else 0)"
proof (induction xs arbitrary: i)
  case Nil
  then show ?case by simp
next
  case (Cons x xs)
  then show ?case by (cases i) auto
qed

lemma step_cases [consumes 1, case_names Run Wait Acquire Handoff Push Deliver Return
    Release_buffered Release_closed Done_wake Done Wake WgWait Park Resume CloseErrors
    CloseSem Recv_value Recv_closed]:
  assumes "step a s = Ok s'"
  obtains
    fn where "a = CallRun fn" "\<not> (wg s = 0 \<and> wg_sleepers s \<noteq> 0)"
      "s' = s\<lparr>wg := wg s + 1, workers := workers s @ [\<lparr>pc = AtAcquire, todo = fn\<rparr>]\<rparr>"
  | "a = CallWait" "s' = s\<lparr>waiters := waiters s @ [AtWgWait]\<rparr>"
  | i where "a = Acquire i" "worker_at s i AtAcquire" "\<not> ch_closed (semaphore s)"
      "length (ch_buf (semaphore s)) < ch_cap (semaphore s)"
      "s' = s\<lparr>semaphore := (semaphore s)\<lparr>ch_buf := ch_buf (semaphore s) @ [True]\<rparr>,
              workers := move_worker i InBody (workers s)\<rparr>"
  | i j where "a = Handoff i j" "worker_at s i AtAcquire" "worker_at s j AtRelease"
      "\<not> ch_closed (semaphore s)" "ch_buf (semaphore s) = []"
      "s' = s\<lparr>workers := move_worker j AtDone (move_worker i InBody (workers s))\<rparr>"
  | i v vs where "a = Push i" "worker_at s i InBody" "todo (workers s ! i) = v # vs"
      "\<not> ch_closed (Errors s)" "length (ch_buf (Errors s)) < ch_cap (Errors s)"
      "s' = s\<lparr>Errors := (Errors s)\<lparr>ch_buf := ch_buf (Errors s) @ [v]\<rparr>,
              workers := (workers s)[i := (workers s ! i)\<lparr>todo := vs\<rparr>]\<rparr>"
  | i v vs where "a = Deliver i" "worker_at s i InBody" "todo (workers s ! i) = v # vs"
      "\<not> ch_closed (Errors s)" "ch_buf (Errors s) = []" "\<not> drain_done s"
      "s' = s\<lparr>workers := (workers s)[i := (workers s ! i)\<lparr>todo := vs\<rparr>],
              drained := drained s @ [v]\<rparr>"
  | i where "a = Return i" "worker_at s i InBody" "todo (workers s ! i) = []"
      "s' = s\<lparr>workers := move_worker i AtRelease (workers s)\<rparr>"
  | i v vs where "a = Release i" "worker_at s i AtRelease" "ch_buf (semaphore s) = v # vs"
      "s' = s\<lparr>semaphore := (semaphore s)\<lparr>ch_buf := vs\<rparr>,
              workers := move_worker i AtDone (workers s)\<rparr>"
  | i where "a = Release i" "worker_at s i AtRelease" "ch_buf (semaphore s) = []"
      "ch_closed (semaphore s)"
      "s' = s\<lparr>workers := move_worker i AtDone (workers s)\<rparr>"
  | i where "a = Done i" "worker_at s i AtDone" "wg s = 1" "wg_sleepers s \<noteq> 0"
      "s' = s\<lparr>wg := 0, workers := move_worker i AtWake (workers s)\<rparr>"
  | i where "a = Done i" "worker_at s i AtDone" "0 < wg s"
      "\<not> (wg s = 1 \<and> wg_sleepers s \<noteq> 0)"
      "s' = s\<lparr>wg := wg s - 1, workers := move_worker i Exited (workers s)\<rparr>"
  | i where "a = Wake i" "worker_at s i AtWake" "wg s = 0"
      "s' = s\<lparr>wg_sleepers := 0, workers := move_worker i Exited (workers s),
              waiters := map wake (waiters s)\<rparr>"
  | k where "a = WgWait k" "waiter_at s k AtWgWait" "wg s = 0"
      "s' = s\<lparr>waiters := (waiters s)[k := AtCloseErrors]\<rparr>"
  | k where "a = WgWait k" "waiter_at s k AtWgWait" "wg s \<noteq> 0"
      "s' = s\<lparr>wg_sleepers := wg_sleepers s + 1, waiters := (waiters s)[k := Parked]\<rparr>"
  | k where "a = Resume k" "waiter_at s k Woken" "wg s = 0" "wg_sleepers s = 0"
      "s' = s\<lparr>waiters := (waiters s)[k := AtCloseErrors]\<rparr>"
  | k where "a = CloseErrors k" "waiter_at s k AtCloseErrors" "\<not> ch_closed (Errors s)"
      "s' = s\<lparr>Errors := (Errors s)\<lparr>ch_closed := True\<rparr>,
              waiters := (waiters s)[k := AtCloseSem]\<rparr>"
  | k where "a = CloseSem k" "waiter_at s k AtCloseSem" "\<not> ch_closed (semaphore s)"
      "s' = s\<lparr>semaphore := (semaphore s)\<lparr>ch_closed := True\<rparr>,
              waiters := (waiters s)[k := WaiterExited]\<rparr>"
  | v vs where "a = Recv" "\<not> drain_done s" "ch_buf (Errors s) = v # vs"
      "s' = s\<lparr>Errors := (Errors s)\<lparr>ch_buf := vs\<rparr>, drained := drained s @ [v]\<rparr>"
  | "a = Recv" "\<not> drain_done s" "ch_buf (Errors s) = []" "ch_closed (Errors s)"
      "s' = s\<lparr>drain_done := True\<rparr>"
proof (cases a)
  case (CallRun fn) with assms that(1) show ?thesis by (auto split: if_splits)
next
  case CallWait with assms that(2) show ?thesis by simp
next
  case (Acquire i) with assms that(3) show ?thesis
    by (auto simp: chan_send_def split: if_splits)
next
  case (Handoff i j) with assms that(4) show ?thesis
    by (auto simp: can_rendezvous_def split: if_splits)
next
  case (Push i) with assms that(5) show ?thesis
    by (auto simp: chan_send_def split: if_splits list.splits)
next
  case (Deliver i) with assms that(6) show ?thesis
    by (auto simp: can_rendezvous_def split: if_splits list.splits)
next
  case (Return i) with assms that(7) show ?thesis
    by (auto split: if_splits)
next
  case (Release i) with assms that(8,9) show ?thesis
    by (auto simp: chan_recv_def split: if_splits list.splits)
next
  case (Done i) with assms that(10,11) show ?thesis
    by (auto split: if_splits)
next
  case (Wake i) with assms that(12) show ?thesis
    by (auto split: if_splits)
next
  case (WgWait k) with assms that(13,14) show ?thesis
    by (auto split: if_splits)
next
  case (Resume k) with assms that(15) show ?thesis
    by (auto split: if_splits)
next
  case (CloseErrors k) with assms that(16) show ?thesis
    by (auto simp: chan_close_def split: if_splits)
next
  case (CloseSem k) with assms that(17) show ?thesis
    by (auto simp: chan_close_def split: if_splits)
next
  case Recv with assms that(18,19) show ?thesis
    by (auto simp: chan_recv_def split: if_splits list.splits option.splits)
qed

lemma length_move_worker [simp]: "length (move_worker i p ws) = length ws"
  by (simp add: move_worker_def)

lemma nth_move_worker:
  "j < length ws \<Longrightarrow>
   move_worker i p ws ! j = (if j = i then (ws ! j)\<lparr>pc := p\<rparr> else ws ! j)"
  by (simp add: move_worker_def nth_list_update)

lemma count_move:
  "i < length ws \<Longrightarrow>
   length (filter P (move_worker i p ws)) + (if P (ws ! i) then 1 else 0) =
   length (filter P ws) + (if P ((ws ! i)\<lparr>pc := p\<rparr>) then 1 else 0)"
  unfolding move_worker_def by (rule count_update)

lemma map_todo_move [simp]: "map todo (move_worker i p ws) = map todo ws"
proof (cases "i < length ws")
  case True
  then show ?thesis
    by (intro nth_equalityI) (simp_all add: move_worker_def nth_list_update)
next
  case False
  then show ?thesis by (simp add: move_worker_def list_update_beyond)
qed

lemma count_todo_update:
  "i < length ws \<Longrightarrow>
   length (filter P (ws[i := (ws ! i)\<lparr>todo := vs\<rparr>])) + (if P (ws ! i) then 1 else 0) =
   length (filter P ws) + (if P ((ws ! i)\<lparr>todo := vs\<rparr>) then 1 else 0)"
  by (rule count_update)


section \<open>Invariants of every schedule\<close>

lemma sem_inv_step:
  assumes "step a s = Ok s'" and "sem_inv s"
  shows "sem_inv s'"
  using assms(1)
proof (cases rule: step_cases)
  case (Run fn)
  with assms(2) show ?thesis by (simp add: sem_inv_def running_def holds_permit_def)
next
  case Wait
  with assms(2) show ?thesis by (simp add: sem_inv_def running_def)
next
  case (Acquire i)
  from Acquire(2) have i: "i < length (workers s)" "pc (workers s ! i) = AtAcquire"
    by (simp_all add: worker_at_def)
  from count_move[OF i(1), of holds_permit InBody] i(2)
  have "running s' = running s + 1"
    by (simp add: Acquire(5) running_def holds_permit_def)
  with assms(2) Acquire(4,5) show ?thesis by (simp add: sem_inv_def)
next
  case (Handoff i j)
  from Handoff(2,3) have i: "i < length (workers s)" "pc (workers s ! i) = AtAcquire"
    and j: "j < length (workers s)" "pc (workers s ! j) = AtRelease" and ij: "i \<noteq> j"
    by (auto simp add: worker_at_def)
  let ?ws = "move_worker i InBody (workers s)"
  from count_move[OF i(1), of holds_permit InBody] i(2)
  have 1: "length (filter holds_permit ?ws) = running s + 1"
    by (simp add: running_def holds_permit_def)
  have pj: "pc (?ws ! j) = AtRelease" using j ij by (simp add: nth_move_worker)
  from count_move[of j ?ws holds_permit AtDone] j(1) pj
  have "length (filter holds_permit (move_worker j AtDone ?ws)) + 1 = length (filter holds_permit ?ws)"
    by (simp add: holds_permit_def)
  with 1 have "running s' = running s" by (simp add: Handoff(6) running_def)
  with assms(2) Handoff(6) show ?thesis by (simp add: sem_inv_def)
next
  case (Push i v vs)
  from Push(2) have i: "i < length (workers s)" by (simp add: worker_at_def)
  from count_todo_update[OF i, of holds_permit vs]
  have "running s' = running s" by (simp add: Push(6) running_def holds_permit_def)
  with assms(2) Push(6) show ?thesis by (simp add: sem_inv_def)
next
  case (Deliver i v vs)
  from Deliver(2) have i: "i < length (workers s)" by (simp add: worker_at_def)
  from count_todo_update[OF i, of holds_permit vs]
  have "running s' = running s" by (simp add: Deliver(7) running_def holds_permit_def)
  with assms(2) Deliver(7) show ?thesis by (simp add: sem_inv_def)
next
  case (Return i)
  from Return(2) have i: "i < length (workers s)" "pc (workers s ! i) = InBody"
    by (simp_all add: worker_at_def)
  from count_move[OF i(1), of holds_permit AtRelease] i(2)
  have "running s' = running s" by (simp add: Return(4) running_def holds_permit_def)
  with assms(2) Return(4) show ?thesis by (simp add: sem_inv_def)
next
  case (Release_buffered i v vs)
  from Release_buffered(2) have i: "i < length (workers s)" "pc (workers s ! i) = AtRelease"
    by (simp_all add: worker_at_def)
  from count_move[OF i(1), of holds_permit AtDone] i(2)
  have "running s' + 1 = running s"
    by (simp add: Release_buffered(4) running_def holds_permit_def)
  with assms(2) Release_buffered(3,4) show ?thesis by (simp add: sem_inv_def)
next
  case (Release_closed i)
  from Release_closed(2) have i: "i < length (workers s)" "pc (workers s ! i) = AtRelease"
    by (simp_all add: worker_at_def)
  from count_move[OF i(1), of holds_permit AtDone] i(2)
  have "running s' + 1 = running s"
    by (simp add: Release_closed(5) running_def holds_permit_def)
  with assms(2) Release_closed(3) show ?thesis by (simp add: sem_inv_def)
next
  case (Done_wake i)
  from Done_wake(2) have i: "i < length (workers s)" "pc (workers s ! i) = AtDone"
    by (simp_all add: worker_at_def)
  from count_move[OF i(1), of holds_permit AtWake] i(2)
  have "running s' = running s" by (simp add: Done_wake(5) running_def holds_permit_def)
  with assms(2) Done_wake(5) show ?thesis by (simp add: sem_inv_def)
next
  case (Done i)
  from Done(2) have i: "i < length (workers s)" "pc (workers s ! i) = AtDone"
    by (simp_all add: worker_at_def)
  from count_move[OF i(1), of holds_permit Exited] i(2)
  have "running s' = running s" by (simp add: Done(5) running_def holds_permit_def)
  with assms(2) Done(5) show ?thesis by (simp add: sem_inv_def)
next
  case (Wake i)
  from Wake(2) have i: "i < length (workers s)" "pc (workers s ! i) = AtWake"
    by (simp_all add: worker_at_def)
  from count_move[OF i(1), of holds_permit Exited] i(2)
  have "running s' = running s" by (simp add: Wake(4) running_def holds_permit_def)
  with assms(2) Wake(4) show ?thesis by (simp add: sem_inv_def)
next
  case (WgWait k)
  with assms(2) show ?thesis by (simp add: sem_inv_def running_def)
next
  case (Park k)
  with assms(2) show ?thesis by (simp add: sem_inv_def running_def)
next
  case (Resume k)
  with assms(2) show ?thesis by (simp add: sem_inv_def running_def)
next
  case (CloseErrors k)
  with assms(2) show ?thesis by (simp add: sem_inv_def running_def)
next
  case (CloseSem k)
  with assms(2) show ?thesis by (simp add: sem_inv_def running_def)
next
  case (Recv_value v vs)
  with assms(2) show ?thesis by (simp add: sem_inv_def running_def)
next
  case Recv_closed
  with assms(2) show ?thesis by (simp add: sem_inv_def running_def)
qed

lemma err_inv_step:
  assumes "step a s = Ok s'" and "err_inv s"
  shows "err_inv s'"
  using assms by (cases rule: step_cases) (simp_all add: err_inv_def)

lemma worker_at_move:
  "worker_at s i q \<Longrightarrow> worker_at s j r \<Longrightarrow> i \<noteq> j \<Longrightarrow>
   worker_at (s\<lparr>workers := move_worker i p (workers s)\<rparr>) j r"
  by (simp add: worker_at_def nth_move_worker)

text \<open>How a count of workers changes when one worker moves.\<close>

lemma tally_move:
  assumes "worker_at s i q"
  shows "length (filter P (move_worker i p (workers s))) +
           (if P (workers s ! i) then 1 else 0) =
         length (filter P (workers s)) + (if P ((workers s ! i)\<lparr>pc := p\<rparr>) then 1 else 0)"
  using assms by (intro count_move) (simp add: worker_at_def)

lemma tally_todo:
  assumes "worker_at s i q"
  shows "length (filter P ((workers s)[i := (workers s ! i)\<lparr>todo := vs\<rparr>])) +
           (if P (workers s ! i) then 1 else 0) =
         length (filter P (workers s)) + (if P ((workers s ! i)\<lparr>todo := vs\<rparr>) then 1 else 0)"
  using assms by (intro count_update) (simp add: worker_at_def)

lemma counts_move:
  assumes "worker_at s i q" and "workers s' = move_worker i p (workers s)"
    and "waiters s' = waiters s"
  shows "outstanding s' + (if q \<noteq> AtWake \<and> q \<noteq> Exited then 1 else 0) =
         outstanding s + (if p \<noteq> AtWake \<and> p \<noteq> Exited then 1 else 0)"
    and "waking s' + (if q = AtWake then 1 else 0) = waking s + (if p = AtWake then 1 else 0)"
    and "sleeping s' = sleeping s"
  using tally_move[OF assms(1), of counted p]
    tally_move[OF assms(1), of "\<lambda>w. pc w = AtWake" p] assms
  by (simp_all add: outstanding_def waking_def sleeping_def counted_def worker_at_def)

lemma counts_todo:
  assumes "worker_at s i q" and "workers s' = (workers s)[i := (workers s ! i)\<lparr>todo := vs\<rparr>]"
    and "waiters s' = waiters s"
  shows "outstanding s' = outstanding s" and "waking s' = waking s" and "sleeping s' = sleeping s"
  using tally_todo[OF assms(1), of counted vs]
    tally_todo[OF assms(1), of "\<lambda>w. pc w = AtWake" vs] assms(2,3)
  by (simp_all add: outstanding_def waking_def sleeping_def counted_def)

lemma counts_waiter:
  assumes "waiter_at s k q" and "waiters s' = (waiters s)[k := p]" and "workers s' = workers s"
  shows "outstanding s' = outstanding s" and "waking s' = waking s"
    and "sleeping s' + (if q = Parked then 1 else 0) = sleeping s + (if p = Parked then 1 else 0)"
  using count_update[of k "waiters s" "\<lambda>p. p = Parked" p] assms
  by (simp_all add: outstanding_def waking_def sleeping_def waiter_at_def)

lemma sleeping_wake: "length (filter (\<lambda>p. p = Parked) (map wake ws)) = 0"
proof (induction ws)
  case Nil
  show ?case by simp
next
  case (Cons w ws)
  then show ?case by (cases w) simp_all
qed

lemma wg_inv_step:
  assumes "step a s = Ok s'" and "wg_inv s"
  shows "wg_inv s'"
  using assms(1)
proof (cases rule: step_cases)
  case (Run fn)
  then have "outstanding s' = outstanding s + 1" "waking s' = waking s" "sleeping s' = sleeping s"
    by (simp_all add: outstanding_def waking_def sleeping_def counted_def)
  with assms(2) Run(2,3) show ?thesis by (auto simp: wg_inv_def)
next
  case Wait
  then have "outstanding s' = outstanding s" "waking s' = waking s" "sleeping s' = sleeping s"
    by (simp_all add: outstanding_def waking_def sleeping_def)
  with assms(2) Wait show ?thesis by (simp add: wg_inv_def)
next
  case (Acquire i)
  from counts_move[OF Acquire(2), of s' InBody] assms(2) Acquire(5) show ?thesis
    by (simp add: wg_inv_def)
next
  case (Handoff i j)
  from Handoff(2,3) have ij: "i \<noteq> j" by (auto simp: worker_at_def)
  let ?m = "s\<lparr>workers := move_worker i InBody (workers s)\<rparr>"
  have j: "worker_at ?m j AtRelease" using Handoff(2,3) ij by (rule worker_at_move)
  from counts_move[OF Handoff(2), of ?m InBody] counts_move[OF j, of s' AtDone] assms(2) Handoff(6)
  show ?thesis by (simp add: wg_inv_def)
next
  case (Push i v vs)
  from counts_todo[OF Push(2), of s' vs] assms(2) Push(6) show ?thesis
    by (simp add: wg_inv_def)
next
  case (Deliver i v vs)
  from counts_todo[OF Deliver(2), of s' vs] assms(2) Deliver(7) show ?thesis
    by (simp add: wg_inv_def)
next
  case (Return i)
  from counts_move[OF Return(2), of s' AtRelease] assms(2) Return(4) show ?thesis
    by (simp add: wg_inv_def)
next
  case (Release_buffered i v vs)
  from counts_move[OF Release_buffered(2), of s' AtDone] assms(2) Release_buffered(4)
  show ?thesis by (simp add: wg_inv_def)
next
  case (Release_closed i)
  from counts_move[OF Release_closed(2), of s' AtDone] assms(2) Release_closed(5)
  show ?thesis by (simp add: wg_inv_def)
next
  case (Done_wake i)
  from counts_move[OF Done_wake(2), of s' AtWake] assms(2) Done_wake(3,4,5) show ?thesis
    by (simp add: wg_inv_def)
next
  case (Done i)
  from counts_move[OF Done(2), of s' Exited] assms(2) Done(3,4,5) show ?thesis
    by (auto simp: wg_inv_def split: if_splits)
next
  case (Wake i)
  have "sleeping s' = 0" using Wake(4) sleeping_wake[of "waiters s"] by (simp add: sleeping_def)
  moreover have "outstanding s' = outstanding s" "waking s' + 1 = waking s"
    using tally_move[OF Wake(2), of counted Exited]
      tally_move[OF Wake(2), of "\<lambda>w. pc w = AtWake" Exited] Wake(2,4)
    by (simp_all add: outstanding_def waking_def counted_def worker_at_def)
  ultimately show ?thesis using assms(2) Wake(3,4) by (auto simp: wg_inv_def split: if_splits)
next
  case (WgWait k)
  from counts_waiter[OF WgWait(2), of s' AtCloseErrors] assms(2) WgWait(3,4) show ?thesis
    by (simp add: wg_inv_def)
next
  case (Park k)
  from counts_waiter[OF Park(2), of s' Parked] assms(2) Park(3,4) show ?thesis
    by (simp add: wg_inv_def)
next
  case (Resume k)
  from counts_waiter[OF Resume(2), of s' AtCloseErrors] assms(2) Resume(3,4,5) show ?thesis
    by (simp add: wg_inv_def)
next
  case (CloseErrors k)
  from counts_waiter[OF CloseErrors(2), of s' AtCloseSem] assms(2) CloseErrors(4) show ?thesis
    by (simp add: wg_inv_def)
next
  case (CloseSem k)
  from counts_waiter[OF CloseSem(2), of s' WaiterExited] assms(2) CloseSem(4) show ?thesis
    by (simp add: wg_inv_def)
next
  case (Recv_value v vs)
  then have "outstanding s' = outstanding s" "waking s' = waking s" "sleeping s' = sleeping s"
    by (simp_all add: outstanding_def waking_def sleeping_def)
  with assms(2) Recv_value show ?thesis by (simp add: wg_inv_def)
next
  case Recv_closed
  then have "outstanding s' = outstanding s" "waking s' = waking s" "sleeping s' = sleeping s"
    by (simp_all add: outstanding_def waking_def sleeping_def)
  with assms(2) Recv_closed show ?thesis by (simp add: wg_inv_def)
qed

lemma list_ex_update_same:
  "k < length xs \<Longrightarrow> P (xs ! k) = P y \<Longrightarrow> list_ex P (xs[k := y]) = list_ex P xs"
proof (induction xs arbitrary: k)
  case Nil
  then show ?case by simp
next
  case (Cons x xs)
  then show ?case by (cases k) auto
qed

lemma list_ex_update_new:
  "k < length xs \<Longrightarrow> P y \<Longrightarrow> list_ex P (xs[k := y])"
  by (auto simp: list_ex_iff intro: set_update_memI)

lemma list_ex_wake:
  "\<not> P Parked \<Longrightarrow> \<not> P Woken \<Longrightarrow> list_ex P (map wake ws) = list_ex P ws"
proof (induction ws)
  case Nil
  show ?case by simp
next
  case (Cons w ws)
  then show ?case by (cases w) simp_all
qed

lemma close_inv_step:
  assumes "step a s = Ok s'" and "close_inv s"
  shows "close_inv s'"
  using assms(1)
proof (cases rule: step_cases)
  case (WgWait k)
  then have k: "k < length (waiters s)" "waiters s ! k = AtWgWait"
    by (simp_all add: waiter_at_def)
  have 1: "list_ex past_close_errors ((waiters s)[k := AtCloseErrors]) =
           list_ex past_close_errors (waiters s)"
    using k by (intro list_ex_update_same) (simp_all add: past_close_errors_def)
  have 2: "list_ex (\<lambda>p. p = WaiterExited) ((waiters s)[k := AtCloseErrors]) =
           list_ex (\<lambda>p. p = WaiterExited) (waiters s)"
    using k by (intro list_ex_update_same) simp_all
  from assms(2) WgWait(4) 1 2 show ?thesis by (auto simp add: close_inv_def)
next
  case (Park k)
  then have k: "k < length (waiters s)" "waiters s ! k = AtWgWait"
    by (simp_all add: waiter_at_def)
  have 1: "list_ex past_close_errors ((waiters s)[k := Parked]) =
           list_ex past_close_errors (waiters s)"
    using k by (intro list_ex_update_same) (simp_all add: past_close_errors_def)
  have 2: "list_ex (\<lambda>p. p = WaiterExited) ((waiters s)[k := Parked]) =
           list_ex (\<lambda>p. p = WaiterExited) (waiters s)"
    using k by (intro list_ex_update_same) simp_all
  from assms(2) Park(4) 1 2 show ?thesis by (auto simp add: close_inv_def)
next
  case (Resume k)
  then have k: "k < length (waiters s)" "waiters s ! k = Woken"
    by (simp_all add: waiter_at_def)
  have 1: "list_ex past_close_errors ((waiters s)[k := AtCloseErrors]) =
           list_ex past_close_errors (waiters s)"
    using k by (intro list_ex_update_same) (simp_all add: past_close_errors_def)
  have 2: "list_ex (\<lambda>p. p = WaiterExited) ((waiters s)[k := AtCloseErrors]) =
           list_ex (\<lambda>p. p = WaiterExited) (waiters s)"
    using k by (intro list_ex_update_same) simp_all
  from assms(2) Resume(5) 1 2 show ?thesis by (auto simp add: close_inv_def)
next
  case (Wake i)
  have 1: "list_ex past_close_errors (map wake (waiters s)) =
           list_ex past_close_errors (waiters s)"
    by (intro list_ex_wake) (simp_all add: past_close_errors_def)
  have 2: "list_ex (\<lambda>p. p = WaiterExited) (map wake (waiters s)) =
           list_ex (\<lambda>p. p = WaiterExited) (waiters s)"
    by (intro list_ex_wake) simp_all
  from assms(2) Wake(4) 1 2 show ?thesis by (auto simp add: close_inv_def)
next
  case (CloseErrors k)
  then have k: "k < length (waiters s)" "waiters s ! k = AtCloseErrors"
    by (simp_all add: waiter_at_def)
  have 1: "list_ex past_close_errors ((waiters s)[k := AtCloseSem])"
    using k(1) by (rule list_ex_update_new) (simp add: past_close_errors_def)
  have 2: "list_ex (\<lambda>p. p = WaiterExited) ((waiters s)[k := AtCloseSem]) =
           list_ex (\<lambda>p. p = WaiterExited) (waiters s)"
    using k by (intro list_ex_update_same) simp_all
  from assms(2) CloseErrors(4) 1 2 show ?thesis by (auto simp add: close_inv_def)
next
  case (CloseSem k)
  then have k: "k < length (waiters s)" "waiters s ! k = AtCloseSem"
    by (simp_all add: waiter_at_def)
  have 1: "list_ex (\<lambda>p. p = WaiterExited) ((waiters s)[k := WaiterExited])"
    using k(1) by (rule list_ex_update_new) simp
  have 2: "list_ex past_close_errors ((waiters s)[k := WaiterExited]) =
           list_ex past_close_errors (waiters s)"
    using k by (intro list_ex_update_same) (simp_all add: past_close_errors_def)
  from assms(2) CloseSem(4) 1 2 show ?thesis by (auto simp add: close_inv_def)
qed (use assms(2) in \<open>auto simp add: close_inv_def past_close_errors_def\<close>)

lemma list_all_update:
  "list_all P xs \<Longrightarrow> P y \<Longrightarrow> list_all P (xs[i := y])"
  by (auto simp: list_all_iff dest: set_update_subset_insert[THEN subsetD])

lemma todo_inv_move:
  assumes "todo_inv s" and "i < length (workers s)"
    and "p \<noteq> AtAcquire \<and> p \<noteq> InBody \<longrightarrow> todo (workers s ! i) = []"
  shows "list_all (\<lambda>w. pc w \<noteq> AtAcquire \<and> pc w \<noteq> InBody \<longrightarrow> todo w = [])
           (move_worker i p (workers s))"
  unfolding move_worker_def using assms
  by (intro list_all_update) (simp_all add: todo_inv_def)

lemma todo_inv_nth:
  "todo_inv s \<Longrightarrow> worker_at s i p \<Longrightarrow> p \<noteq> AtAcquire \<Longrightarrow> p \<noteq> InBody \<Longrightarrow>
   todo (workers s ! i) = []"
  by (auto simp: todo_inv_def worker_at_def list_all_length)

lemma todo_inv_step:
  assumes "step a s = Ok s'" and "todo_inv s"
  shows "todo_inv s'"
  using assms(1)
proof (cases rule: step_cases)
  case (Run fn)
  with assms(2) show ?thesis by (simp add: todo_inv_def)
next
  case (Acquire i)
  with assms(2) todo_inv_move[OF assms(2), of i InBody] show ?thesis
    by (simp add: todo_inv_def worker_at_def)
next
  case (Handoff i j)
  from Handoff(2,3) have ij: "i \<noteq> j" by (auto simp: worker_at_def)
  let ?m = "s\<lparr>workers := move_worker i InBody (workers s)\<rparr>"
  have m: "todo_inv ?m"
    using todo_inv_move[OF assms(2), of i InBody] Handoff(2)
    by (simp add: todo_inv_def worker_at_def)
  have j: "worker_at ?m j AtRelease" using Handoff(2,3) ij by (rule worker_at_move)
  from todo_inv_nth[OF m j] todo_inv_move[OF m, of j AtDone] j
  show ?thesis by (simp add: Handoff(6) todo_inv_def worker_at_def)
next
  case (Push i v vs)
  have "list_all (\<lambda>w. pc w \<noteq> AtAcquire \<and> pc w \<noteq> InBody \<longrightarrow> todo w = [])
          ((workers s)[i := (workers s ! i)\<lparr>todo := vs\<rparr>])"
    using assms(2) Push(2) by (intro list_all_update) (simp_all add: todo_inv_def worker_at_def)
  with Push(6) show ?thesis by (simp add: todo_inv_def)
next
  case (Deliver i v vs)
  have "list_all (\<lambda>w. pc w \<noteq> AtAcquire \<and> pc w \<noteq> InBody \<longrightarrow> todo w = [])
          ((workers s)[i := (workers s ! i)\<lparr>todo := vs\<rparr>])"
    using assms(2) Deliver(2) by (intro list_all_update) (simp_all add: todo_inv_def worker_at_def)
  with Deliver(7) show ?thesis by (simp add: todo_inv_def)
next
  case (Return i)
  with assms(2) todo_inv_move[OF assms(2), of i AtRelease] show ?thesis
    by (simp add: todo_inv_def worker_at_def)
next
  case (Release_buffered i v vs)
  with todo_inv_nth[OF assms(2) Release_buffered(2)] todo_inv_move[OF assms(2), of i AtDone]
  show ?thesis by (simp add: todo_inv_def worker_at_def)
next
  case (Release_closed i)
  with todo_inv_nth[OF assms(2) Release_closed(2)] todo_inv_move[OF assms(2), of i AtDone]
  show ?thesis by (simp add: todo_inv_def worker_at_def)
next
  case (Done_wake i)
  with todo_inv_nth[OF assms(2) Done_wake(2)] todo_inv_move[OF assms(2), of i AtWake]
  show ?thesis by (simp add: todo_inv_def worker_at_def)
next
  case (Done i)
  with todo_inv_nth[OF assms(2) Done(2)] todo_inv_move[OF assms(2), of i Exited]
  show ?thesis by (simp add: todo_inv_def worker_at_def)
next
  case (Wake i)
  with todo_inv_nth[OF assms(2) Wake(2)] todo_inv_move[OF assms(2), of i Exited]
  show ?thesis by (simp add: todo_inv_def worker_at_def)
qed (use assms(2) in \<open>simp_all add: todo_inv_def\<close>)

lemma pool_inv_step: "step a s = Ok s' \<Longrightarrow> pool_inv s \<Longrightarrow> pool_inv s'"
  unfolding pool_inv_def
  by (blast intro: sem_inv_step err_inv_step wg_inv_step close_inv_step todo_inv_step)

lemma pool_inv_exec: "exec as s = Ok s' \<Longrightarrow> pool_inv s \<Longrightarrow> pool_inv s'"
proof (induction as arbitrary: s)
  case Nil
  then show ?case by simp
next
  case (Cons a as)
  from Cons.prems(1) obtain m where "step a s = Ok m" "exec as m = Ok s'"
    by (auto simp: and_then_Ok)
  with Cons.IH Cons.prems(2) show ?case by (blast intro: pool_inv_step)
qed

lemma New_Ok:
  "New c = Ok s \<longleftrightarrow>
   0 \<le> c \<and> s = \<lparr>Errors = \<lparr>ch_cap = 0, ch_buf = [], ch_closed = False\<rparr>,
                 semaphore = \<lparr>ch_cap = nat c, ch_buf = [], ch_closed = False\<rparr>,
                 wg = 0, wg_sleepers = 0, workers = [], waiters = [], drained = [],
                 drain_done = False\<rparr>"
  by (auto simp: New_def make_chan_def)

lemma pool_inv_New: "New c = Ok s \<Longrightarrow> pool_inv s"
  by (simp add: New_Ok pool_inv_def sem_inv_def err_inv_def wg_inv_def close_inv_def
      todo_inv_def running_def outstanding_def waking_def sleeping_def)

lemma play_Ok: "play c as = Ok s \<longleftrightarrow> (\<exists>s0. New c = Ok s0 \<and> exec as s0 = Ok s)"
  by (simp add: play_def and_then_Ok)

lemma pool_inv_play: "play c as = Ok s \<Longrightarrow> pool_inv s"
  by (auto simp: play_Ok intro: pool_inv_exec pool_inv_New)

lemma sem_cap_step: "step a s = Ok s' \<Longrightarrow> ch_cap (semaphore s') = ch_cap (semaphore s)"
  by (cases rule: step_cases) auto

lemma sem_cap_exec: "exec as s = Ok s' \<Longrightarrow> ch_cap (semaphore s') = ch_cap (semaphore s)"
proof (induction as arbitrary: s)
  case Nil
  then show ?case by simp
next
  case (Cons a as)
  from Cons.prems obtain m where "step a s = Ok m" "exec as m = Ok s'"
    by (auto simp: and_then_Ok)
  with Cons.IH show ?case by (simp add: sem_cap_step)
qed

lemma sem_cap_play: "play c as = Ok s \<Longrightarrow> 0 \<le> c \<and> ch_cap (semaphore s) = nat c"
  by (auto simp: play_Ok New_Ok dest: sem_cap_exec)

section \<open>The documented use\<close>

lemma play_snoc_Ok:
  "play c (as @ [a]) = Ok s \<longleftrightarrow> (\<exists>m. play c as = Ok m \<and> step a m = Ok s)"
  by (auto simp: play_Ok exec_snoc_Ok)

lemma play_Nil_Ok: "play c [] = Ok s \<longleftrightarrow> New c = Ok s"
  by (simp add: play_Ok)

lemma disciplined_snoc:
  "disciplined (as @ [a]) \<longleftrightarrow>
   disciplined as \<and> (is_call a \<longrightarrow> CallWait \<notin> set as)"
proof (induction as rule: disciplined.induct)
  case 1
  show ?case by (cases a) simp_all
next
  case (2 as)
  show ?case by (auto simp: list_all_iff)
qed simp_all

lemma workers_count: "play c as = Ok s \<Longrightarrow> length (workers s) = submissions as"
proof (induction as arbitrary: s rule: rev_induct)
  case Nil
  then show ?case by (simp add: play_Nil_Ok New_Ok submissions_def)
next
  case (snoc a as)
  from snoc.prems obtain m where m: "play c as = Ok m" "step a m = Ok s"
    by (auto simp: play_snoc_Ok)
  from m(2) snoc.IH[OF m(1)] show ?case
    by (cases rule: step_cases) (auto simp: submissions_def)
qed

lemma waiters_count: "play c as = Ok s \<Longrightarrow> length (waiters s) = waits as"
proof (induction as arbitrary: s rule: rev_induct)
  case Nil
  then show ?case by (simp add: play_Nil_Ok New_Ok waits_def)
next
  case (snoc a as)
  from snoc.prems obtain m where m: "play c as = Ok m" "step a m = Ok s"
    by (auto simp: play_snoc_Ok)
  from m(2) snoc.IH[OF m(1)] show ?case
    by (cases rule: step_cases) (auto simp: waits_def)
qed

lemma waits_zero: "waits as = 0 \<longleftrightarrow> CallWait \<notin> set as"
  by (auto simp: waits_def filter_empty_conv)

lemma list_ex_nth: "k < length xs \<Longrightarrow> P (xs ! k) \<Longrightarrow> list_ex P xs"
  unfolding list_ex_iff using nth_mem by blast

lemma use_inv_step:
  assumes "step a s = Ok s'" and "use_inv s" and "is_call a \<longrightarrow> waiters s = []"
  shows "use_inv s'"
  using assms(1)
proof (cases rule: step_cases)
  case (Run fn)
  with assms(2,3) show ?thesis by (simp add: use_inv_def)
next
  case Wait
  with assms(2,3) show ?thesis by (simp add: use_inv_def)
next
  case (Done_wake i)
  with assms(2) show ?thesis by (simp add: use_inv_def)
next
  case (Done i)
  from assms(2) Done(3)
  have "\<not> list_ex (\<lambda>p. p \<noteq> AtWgWait \<and> p \<noteq> Parked) (waiters s)"
    by (auto simp: use_inv_def)
  with assms(2) Done(5) show ?thesis by (simp add: use_inv_def)
next
  case (Wake i)
  with assms(2) show ?thesis by (simp add: use_inv_def)
next
  case (WgWait k)
  with assms(2) show ?thesis by (simp add: use_inv_def)
next
  case (Park k)
  then have k: "k < length (waiters s)" "waiters s ! k = AtWgWait"
    by (simp_all add: waiter_at_def)
  have "list_ex (\<lambda>p. p \<noteq> AtWgWait \<and> p \<noteq> Parked) ((waiters s)[k := Parked]) =
        list_ex (\<lambda>p. p \<noteq> AtWgWait \<and> p \<noteq> Parked) (waiters s)"
    using k by (intro list_ex_update_same) simp_all
  with assms(2) Park(3,4) show ?thesis by (simp add: use_inv_def)
next
  case (Resume k)
  with assms(2) show ?thesis by (simp add: use_inv_def)
next
  case (CloseErrors k)
  then have k: "k < length (waiters s)" "waiters s ! k = AtCloseErrors"
    by (simp_all add: waiter_at_def)
  then have "list_ex (\<lambda>p. p \<noteq> AtWgWait \<and> p \<noteq> Parked) (waiters s)"
    by (intro list_ex_nth[of k]) simp_all
  with assms(2) CloseErrors(4) show ?thesis by (simp add: use_inv_def)
next
  case (CloseSem k)
  then have k: "k < length (waiters s)" "waiters s ! k = AtCloseSem"
    by (simp_all add: waiter_at_def)
  then have "list_ex (\<lambda>p. p \<noteq> AtWgWait \<and> p \<noteq> Parked) (waiters s)"
    by (intro list_ex_nth[of k]) simp_all
  with assms(2) CloseSem(4) show ?thesis by (simp add: use_inv_def)
qed (use assms(2) in \<open>auto simp add: use_inv_def\<close>)

lemma use_inv_play: "play c as = Ok s \<Longrightarrow> disciplined as \<Longrightarrow> use_inv s"
proof (induction as arbitrary: s rule: rev_induct)
  case Nil
  then show ?case by (simp add: play_Nil_Ok New_Ok use_inv_def)
next
  case (snoc a as)
  from snoc.prems(1) obtain m where m: "play c as = Ok m" "step a m = Ok s"
    by (auto simp: play_snoc_Ok)
  from snoc.prems(2) have d: "disciplined as" "is_call a \<longrightarrow> CallWait \<notin> set as"
    by (simp_all add: disciplined_snoc)
  from d(2) waiters_count[OF m(1)] have "is_call a \<longrightarrow> waiters m = []"
    by (auto simp: waits_zero[symmetric])
  with m(2) snoc.IH[OF m(1) d(1)] show ?case by (rule use_inv_step)
qed

section \<open>The values of the units\<close>

lemma pending_pop:
  "i < length ws \<Longrightarrow> todo (ws ! i) = v # vs \<Longrightarrow>
   mset (concat (map todo (ws[i := (ws ! i)\<lparr>todo := vs\<rparr>]))) + {#v#} =
   mset (concat (map todo ws))"
proof (induction ws arbitrary: i)
  case Nil
  then show ?case by simp
next
  case (Cons w ws)
  then show ?case by (cases i) auto
qed

lemma conservation_step:
  assumes "step a s = Ok s'" and "err_inv s"
  shows "mset (drained s') + mset (pending s') =
         mset (drained s) + mset (pending s) + mset (unit_of a)"
  using assms(1)
proof (cases rule: step_cases)
  case (Push i v vs)
  with assms(2) show ?thesis by (simp add: err_inv_def)
next
  case (Deliver i v vs)
  from Deliver(2) have i: "i < length (workers s)" by (simp add: worker_at_def)
  from pending_pop[OF i Deliver(3)] Deliver(1,7) show ?thesis
    by (simp add: pending_def)
next
  case (Recv_value v vs)
  with assms(2) show ?thesis by (simp add: err_inv_def)
qed (simp_all add: pending_def)

lemma conservation:
  "play c as = Ok s \<Longrightarrow> mset (drained s) + mset (pending s) = mset (submitted as)"
proof (induction as arbitrary: s rule: rev_induct)
  case Nil
  then show ?case by (simp add: play_Nil_Ok New_Ok pending_def submitted_def)
next
  case (snoc a as)
  from snoc.prems obtain m where m: "play c as = Ok m" "step a m = Ok s"
    by (auto simp: play_snoc_Ok)
  from pool_inv_play[OF m(1)] have "err_inv m" by (simp add: pool_inv_def)
  from conservation_step[OF m(2) this] snoc.IH[OF m(1)] show ?case
    by (simp add: submitted_def)
qed

lemma outstanding_pos:
  assumes "worker_at s i p" and "p \<noteq> AtWake" and "p \<noteq> Exited"
  shows "0 < outstanding s"
proof -
  from assms have "workers s ! i \<in> set (workers s)" "counted (workers s ! i)"
    by (simp_all add: worker_at_def counted_def)
  then have "filter counted (workers s) \<noteq> []" by (auto simp: filter_empty_conv)
  then show ?thesis by (simp add: outstanding_def)
qed

lemma outstanding_zero:
  "outstanding s = 0 \<Longrightarrow> w \<in> set (workers s) \<Longrightarrow> pc w = AtWake \<or> pc w = Exited"
  by (auto simp: outstanding_def filter_empty_conv counted_def)

lemma all_done_no_pending:
  assumes "todo_inv s" and "outstanding s = 0"
  shows "pending s = []"
proof -
  have "todo w = []" if "w \<in> set (workers s)" for w
    using assms(1) that outstanding_zero[OF assms(2) that]
    by (auto simp: todo_inv_def list_all_iff)
  then show ?thesis by (simp add: pending_def)
qed

lemma closed_all_done:
  assumes "pool_inv s" and "use_inv s" and "ch_closed (Errors s)"
  shows "wg s = 0" and "outstanding s = 0" and "pending s = []"
proof -
  from assms(1,3) have "list_ex past_close_errors (waiters s)"
    by (simp add: pool_inv_def close_inv_def)
  then have "list_ex (\<lambda>p. p \<noteq> AtWgWait \<and> p \<noteq> Parked) (waiters s)"
    by (auto simp: list_ex_iff past_close_errors_def)
  with assms(2) show "wg s = 0" by (simp add: use_inv_def)
  with assms(1) show z: "outstanding s = 0" by (simp add: pool_inv_def wg_inv_def)
  from assms(1) have "todo_inv s" by (simp add: pool_inv_def)
  from all_done_no_pending[OF this z] show "pending s = []" .
qed


section \<open>Every schedule is finite\<close>

lemma sum_update:
  fixes f :: "'a \<Rightarrow> nat"
  shows "i < length xs \<Longrightarrow>
   sum_list (map f (xs[i := y])) + f (xs ! i) = sum_list (map f xs) + f y"
proof (induction xs arbitrary: i)
  case Nil
  then show ?case by simp
next
  case (Cons x xs)
  then show ?case by (cases i) auto
qed

lemma left_move:
  assumes "worker_at s i q"
  shows "sum_list (map worker_left (move_worker i p (workers s))) +
           worker_left (workers s ! i) =
         sum_list (map worker_left (workers s)) + worker_left ((workers s ! i)\<lparr>pc := p\<rparr>)"
  unfolding move_worker_def using assms by (intro sum_update) (simp add: worker_at_def)

lemma left_wake: "sum_list (map waiter_left (map wake ws)) \<le> sum_list (map waiter_left ws)"
proof (induction ws)
  case Nil
  show ?case by simp
next
  case (Cons w ws)
  then show ?case by (cases w) simp_all
qed

lemma remaining_step:
  assumes "step a s = Ok s'" and "pool_inv s"
  shows "remaining s' + (if is_call a then 0 else 1) \<le> remaining s + cost a"
  using assms(1)
proof (cases rule: step_cases)
  case (Run fn)
  then show ?thesis by (simp add: remaining_def)
next
  case Wait
  then show ?thesis by (simp add: remaining_def)
next
  case (Acquire i)
  from left_move[OF Acquire(2), of InBody] Acquire(1,2,5) show ?thesis
    by (simp add: remaining_def worker_at_def)
next
  case (Handoff i j)
  from Handoff(2,3) have ij: "i \<noteq> j" by (auto simp: worker_at_def)
  let ?m = "s\<lparr>workers := move_worker i InBody (workers s)\<rparr>"
  have j: "worker_at ?m j AtRelease" using Handoff(2,3) ij by (rule worker_at_move)
  from left_move[OF Handoff(2), of InBody] left_move[OF j, of AtDone] j Handoff(1,2,6)
  show ?thesis by (simp add: remaining_def worker_at_def)
next
  case (Push i v vs)
  with assms(2) show ?thesis by (simp add: pool_inv_def err_inv_def)
next
  case (Deliver i v vs)
  from Deliver(2) have i: "i < length (workers s)" "pc (workers s ! i) = InBody"
    by (simp_all add: worker_at_def)
  from sum_update[OF i(1), of worker_left "(workers s ! i)\<lparr>todo := vs\<rparr>"] i(2) Deliver(1,3,7)
  show ?thesis by (simp add: remaining_def)
next
  case (Return i)
  from left_move[OF Return(2), of AtRelease] Return(1,2,3,4) show ?thesis
    by (simp add: remaining_def worker_at_def)
next
  case (Release_buffered i v vs)
  from left_move[OF Release_buffered(2), of AtDone] Release_buffered(1,2,4) show ?thesis
    by (simp add: remaining_def worker_at_def)
next
  case (Release_closed i)
  from left_move[OF Release_closed(2), of AtDone] Release_closed(1,2,5) show ?thesis
    by (simp add: remaining_def worker_at_def)
next
  case (Done_wake i)
  from left_move[OF Done_wake(2), of AtWake] Done_wake(1,2,5) show ?thesis
    by (simp add: remaining_def worker_at_def)
next
  case (Done i)
  from left_move[OF Done(2), of Exited] Done(1,2,5) show ?thesis
    by (simp add: remaining_def worker_at_def)
next
  case (Wake i)
  from left_move[OF Wake(2), of Exited] Wake(1,2,4) left_wake[of "waiters s"] show ?thesis
    by (simp add: remaining_def worker_at_def)
next
  case (WgWait k)
  then have k: "k < length (waiters s)" "waiters s ! k = AtWgWait"
    by (simp_all add: waiter_at_def)
  from sum_update[OF k(1), of waiter_left AtCloseErrors] k(2) WgWait(1,4) show ?thesis
    by (simp add: remaining_def)
next
  case (Park k)
  then have k: "k < length (waiters s)" "waiters s ! k = AtWgWait"
    by (simp_all add: waiter_at_def)
  from sum_update[OF k(1), of waiter_left Parked] k(2) Park(1,4) show ?thesis
    by (simp add: remaining_def)
next
  case (Resume k)
  then have k: "k < length (waiters s)" "waiters s ! k = Woken"
    by (simp_all add: waiter_at_def)
  from sum_update[OF k(1), of waiter_left AtCloseErrors] k(2) Resume(1,5) show ?thesis
    by (simp add: remaining_def)
next
  case (CloseErrors k)
  then have k: "k < length (waiters s)" "waiters s ! k = AtCloseErrors"
    by (simp_all add: waiter_at_def)
  from sum_update[OF k(1), of waiter_left AtCloseSem] k(2) CloseErrors(1,4) show ?thesis
    by (simp add: remaining_def)
next
  case (CloseSem k)
  then have k: "k < length (waiters s)" "waiters s ! k = AtCloseSem"
    by (simp_all add: waiter_at_def)
  from sum_update[OF k(1), of waiter_left WaiterExited] k(2) CloseSem(1,4) show ?thesis
    by (simp add: remaining_def)
next
  case (Recv_value v vs)
  with assms(2) show ?thesis by (simp add: pool_inv_def err_inv_def)
next
  case Recv_closed
  then show ?thesis by (simp add: remaining_def)
qed

lemma bounded_work:
  "play c as = Ok s \<Longrightarrow> remaining s + internal_steps as \<le> budget as"
proof (induction as arbitrary: s rule: rev_induct)
  case Nil
  then show ?case
    by (simp add: play_Nil_Ok New_Ok remaining_def internal_steps_def budget_def)
next
  case (snoc a as)
  from snoc.prems obtain m where m: "play c as = Ok m" "step a m = Ok s"
    by (auto simp: play_snoc_Ok)
  from remaining_step[OF m(2) pool_inv_play[OF m(1)]] snoc.IH[OF m(1)] show ?case
    by (simp add: internal_steps_def budget_def split: if_splits)
qed

section \<open>Progress, and the absence of panics under the documented use\<close>

lemma running_pos: "worker_at s i p \<Longrightarrow> p = InBody \<or> p = AtRelease \<Longrightarrow> 0 < running s"
  unfolding running_def worker_at_def length_greater_0_conv filter_empty_conv holds_permit_def
  using nth_mem by blast

lemma running_zero:
  assumes "\<And>i. \<not> worker_at s i InBody" and "\<And>i. \<not> worker_at s i AtRelease"
  shows "running s = 0"
proof -
  have "\<not> holds_permit w" if "w \<in> set (workers s)" for w
  proof -
    from that obtain i where "i < length (workers s)" "workers s ! i = w"
      by (auto simp: in_set_conv_nth)
    with assms[of i] show ?thesis by (auto simp: worker_at_def holds_permit_def)
  qed
  then show ?thesis by (simp add: running_def filter_empty_conv)
qed

lemma live_worker:
  assumes "0 < outstanding s"
  obtains i p where "worker_at s i p" "p \<noteq> AtWake" "p \<noteq> Exited"
proof -
  from assms obtain w where "w \<in> set (workers s)" "counted w"
    by (auto simp: outstanding_def filter_empty_conv)
  then obtain i where "i < length (workers s)" "workers s ! i = w"
    by (auto simp: in_set_conv_nth)
  with \<open>counted w\<close> that[of i "pc w"] show thesis by (simp add: worker_at_def counted_def)
qed

lemma waking_worker:
  assumes "0 < waking s"
  obtains i where "worker_at s i AtWake"
proof -
  from assms obtain w where "w \<in> set (workers s)" "pc w = AtWake"
    by (auto simp: waking_def filter_empty_conv)
  then obtain i where "i < length (workers s)" "workers s ! i = w"
    by (auto simp: in_set_conv_nth)
  with \<open>pc w = AtWake\<close> that[of i] show thesis by (simp add: worker_at_def)
qed

lemma waking_pos:
  assumes "worker_at s i AtWake"
  shows "0 < waking s"
proof -
  from assms have "workers s ! i \<in> set (workers s)" "pc (workers s ! i) = AtWake"
    by (simp_all add: worker_at_def)
  then have "filter (\<lambda>w. pc w = AtWake) (workers s) \<noteq> []" by (auto simp: filter_empty_conv)
  then show ?thesis by (simp add: waking_def)
qed

lemma sleeping_pos:
  assumes "waiter_at s k Parked"
  shows "0 < sleeping s"
proof -
  from assms nth_mem[of k "waiters s"] have "Parked \<in> set (waiters s)"
    by (auto simp: waiter_at_def)
  then have "filter (\<lambda>p. p = Parked) (waiters s) \<noteq> []" by (auto simp: filter_empty_conv)
  then show ?thesis by (simp add: sleeping_def)
qed

lemma worker_progress:
  assumes inv: "pool_inv s" and live: "0 < outstanding s"
    and cap: "0 < ch_cap (semaphore s)"
    and opn: "\<not> ch_closed (Errors s)" and drain: "\<not> drain_done s"
  shows "\<exists>a s'. \<not> is_call a \<and> step a s = Ok s'"
proof -
  from inv have sem: "sem_inv s" and err: "err_inv s" and wgi: "wg_inv s"
    and cl: "close_inv s" by (simp_all add: pool_inv_def)
  consider (finishing) i where "worker_at s i AtDone"
    | (release) i where "worker_at s i AtRelease"
    | (body) i where "worker_at s i InBody"
    | (acquire) "\<And>i. \<not> worker_at s i AtDone" "\<And>i. \<not> worker_at s i AtRelease"
        "\<And>i. \<not> worker_at s i InBody"
    by blast
  then show ?thesis
  proof cases
    case finishing
    from wgi live have "wg s \<noteq> 0" by (simp add: wg_inv_def)
    with finishing have "\<exists>s'. step (Done i) s = Ok s'" by auto
    then show ?thesis by (intro exI[of _ "Done i"]) simp
  next
    case release
    from running_pos[OF release] sem have "ch_buf (semaphore s) \<noteq> []"
      by (auto simp: sem_inv_def)
    then obtain v vs where "ch_buf (semaphore s) = v # vs" by (cases "ch_buf (semaphore s)") auto
    with release have "\<exists>s'. step (Release i) s = Ok s'" by (simp add: chan_recv_def)
    then show ?thesis by (intro exI[of _ "Release i"]) simp
  next
    case body
    show ?thesis
    proof (cases "todo (workers s ! i)")
      case Nil
      with body have "\<exists>s'. step (Return i) s = Ok s'" by simp
      then show ?thesis by (intro exI[of _ "Return i"]) simp
    next
      case (Cons v vs)
      with body opn drain err have "\<exists>s'. step (Deliver i) s = Ok s'"
        by (simp add: can_rendezvous_def err_inv_def)
      then show ?thesis by (intro exI[of _ "Deliver i"]) simp
    qed
  next
    case acquire
    from live obtain i p where i: "worker_at s i p" "p \<noteq> AtWake" "p \<noteq> Exited"
      by (rule live_worker)
    with acquire have at: "worker_at s i AtAcquire"
      by (cases p) (auto simp: worker_at_def)
    from running_zero[OF acquire(3) acquire(2)] sem have empty: "ch_buf (semaphore s) = []"
      by (simp add: sem_inv_def)
    have "\<not> ch_closed (semaphore s)"
    proof
      assume "ch_closed (semaphore s)"
      with cl have "list_ex (\<lambda>p. p = WaiterExited) (waiters s)" by (simp add: close_inv_def)
      then have "list_ex past_close_errors (waiters s)"
        by (auto simp: list_ex_iff past_close_errors_def)
      with cl opn show False by (simp add: close_inv_def)
    qed
    with at empty cap have "\<exists>s'. step (Acquire i) s = Ok s'" by (simp add: chan_send_def)
    then show ?thesis by (intro exI[of _ "Acquire i"]) simp
  qed
qed

lemma progress:
  assumes inv: "pool_inv s" and waited: "waiters s \<noteq> []"
    and cap: "0 < ch_cap (semaphore s)" and drain: "\<not> drain_done s"
  shows "\<exists>a s'. \<not> is_call a \<and> step a s = Ok s'"
proof (cases "ch_closed (Errors s)")
  case True
  from inv have "ch_buf (Errors s) = []" by (simp add: pool_inv_def err_inv_def)
  with True drain have "\<exists>s'. step Recv s = Ok s'" by (simp add: chan_recv_def)
  then show ?thesis by (intro exI[of _ Recv]) simp
next
  case False
  from inv have cl: "close_inv s" and wgi: "wg_inv s" by (simp_all add: pool_inv_def)
  consider (busy) "wg s \<noteq> 0" | (wake) "wg s = 0" "wg_sleepers s \<noteq> 0"
    | (quiet) "wg s = 0" "wg_sleepers s = 0"
    by blast
  then show ?thesis
  proof cases
    case busy
    with wgi have "0 < outstanding s" by (simp add: wg_inv_def)
    from worker_progress[OF inv this cap False drain] show ?thesis .
  next
    case wake
    with wgi have "0 < waking s" by (simp add: wg_inv_def)
    then obtain i where "worker_at s i AtWake" by (rule waking_worker)
    with wake(1) have "\<exists>s'. step (Wake i) s = Ok s'" by simp
    then show ?thesis by (intro exI[of _ "Wake i"]) simp
  next
    case quiet
    from waited have k: "0 < length (waiters s)" by simp
    from cl False have "\<not> list_ex past_close_errors (waiters s)" by (simp add: close_inv_def)
    with k have past: "\<not> past_close_errors (waiters s ! 0)" using list_ex_nth by blast
    have "\<not> waiter_at s 0 Parked"
      using sleeping_pos[of s 0] wgi quiet(2) by (auto simp: wg_inv_def)
    with past consider (waiting) "waiter_at s 0 AtWgWait" | (woken) "waiter_at s 0 Woken"
      | (closing) "waiter_at s 0 AtCloseErrors"
      using k by (cases "waiters s ! 0") (auto simp: waiter_at_def past_close_errors_def)
    then show ?thesis
    proof cases
      case waiting
      with quiet have "\<exists>s'. step (WgWait 0) s = Ok s'" by simp
      then show ?thesis by (intro exI[of _ "WgWait 0"]) simp
    next
      case woken
      with quiet have "\<exists>s'. step (Resume 0) s = Ok s'" by simp
      then show ?thesis by (intro exI[of _ "Resume 0"]) simp
    next
      case closing
      with False have "\<exists>s'. step (CloseErrors 0) s = Ok s'" by (simp add: chan_close_def)
      then show ?thesis by (intro exI[of _ "CloseErrors 0"]) simp
    qed
  qed
qed

lemma single_waiter:
  assumes "use_inv s" and "waiter_at s k p" and "list_ex P (waiters s)"
  shows "P p"
proof -
  from assms(1) have "length (waiters s) \<le> 1" by (simp add: use_inv_def)
  with assms(2) have "waiters s = [p]"
    by (cases "waiters s") (auto simp: waiter_at_def)
  with assms(3) show ?thesis by simp
qed

lemma no_panic:
  assumes inv: "pool_inv s" and use: "use_inv s" and call: "is_run a \<longrightarrow> waiters s = []"
  shows "step a s \<noteq> Panics p"
proof -
  from inv have wgi: "wg_inv s" and cl: "close_inv s" by (simp_all add: pool_inv_def)
  have errors_closed: False
    if "ch_closed (Errors s)" "worker_at s i q" "q \<noteq> AtWake" "q \<noteq> Exited" for i q
    using closed_all_done(2)[OF inv use that(1)] outstanding_pos[OF that(2,3,4)] by simp
  have sem_closed: "ch_closed (Errors s)" if "ch_closed (semaphore s)"
  proof -
    from that cl have "list_ex (\<lambda>p. p = WaiterExited) (waiters s)" by (simp add: close_inv_def)
    then have "list_ex past_close_errors (waiters s)"
      by (auto simp: list_ex_iff past_close_errors_def)
    with cl show ?thesis by (simp add: close_inv_def)
  qed
  show ?thesis
  proof (cases a)
    case (Acquire i)
    show ?thesis
    proof (cases "worker_at s i AtAcquire")
      case True
      with errors_closed[OF sem_closed, of i AtAcquire] have "\<not> ch_closed (semaphore s)"
        by auto
      with Acquire show ?thesis by (simp add: chan_send_def)
    next
      case False
      with Acquire show ?thesis by simp
    qed
  next
    case (Push i)
    show ?thesis
    proof (cases "worker_at s i InBody")
      case True
      with errors_closed[of i InBody] have "\<not> ch_closed (Errors s)" by auto
      with Push show ?thesis by (simp add: chan_send_def split: list.splits)
    next
      case False
      with Push show ?thesis by simp
    qed
  next
    case (Done i)
    show ?thesis
    proof (cases "worker_at s i AtDone")
      case True
      from outstanding_pos[OF True] wgi have "wg s \<noteq> 0" by (simp add: wg_inv_def)
      with Done show ?thesis by simp
    next
      case False
      with Done show ?thesis by simp
    qed
  next
    case (CallRun fn)
    show ?thesis
    proof (cases "waiters s = []")
      case True
      with wgi have "wg_sleepers s = 0" by (simp add: wg_inv_def sleeping_def)
      with CallRun show ?thesis by simp
    next
      case False
      with call CallRun show ?thesis by simp
    qed
  next
    case (Wake i)
    show ?thesis
    proof (cases "worker_at s i AtWake")
      case True
      from waking_pos[OF True] wgi have "wg s = 0" by (auto simp: wg_inv_def split: if_splits)
      with Wake show ?thesis by simp
    next
      case False
      with Wake show ?thesis by simp
    qed
  next
    case (Resume k)
    show ?thesis
    proof (cases "waiter_at s k Woken")
      case True
      from use have "length (waiters s) \<le> 1" by (simp add: use_inv_def)
      with True have one: "waiters s = [Woken]"
        by (cases "waiters s") (auto simp: waiter_at_def)
      with use have "wg s = 0" by (simp add: use_inv_def)
      moreover from one wgi have "wg_sleepers s = 0" by (simp add: wg_inv_def sleeping_def)
      ultimately show ?thesis using Resume by simp
    next
      case False
      with Resume show ?thesis by simp
    qed
  next
    case (CloseErrors k)
    show ?thesis
    proof (cases "waiter_at s k AtCloseErrors")
      case True
      have "\<not> ch_closed (Errors s)"
      proof
        assume "ch_closed (Errors s)"
        with cl have "list_ex past_close_errors (waiters s)" by (simp add: close_inv_def)
        from single_waiter[OF use True this] show False by (simp add: past_close_errors_def)
      qed
      with CloseErrors show ?thesis by (simp add: chan_close_def)
    next
      case False
      with CloseErrors show ?thesis by simp
    qed
  next
    case (CloseSem k)
    show ?thesis
    proof (cases "waiter_at s k AtCloseSem")
      case True
      have "\<not> ch_closed (semaphore s)"
      proof
        assume "ch_closed (semaphore s)"
        with cl have "list_ex (\<lambda>p. p = WaiterExited) (waiters s)" by (simp add: close_inv_def)
        from single_waiter[OF use True this] show False by simp
      qed
      with CloseSem show ?thesis by (simp add: chan_close_def)
    next
      case False
      with CloseSem show ?thesis by simp
    qed
  next
    case Recv
    then show ?thesis
      by (simp add: chan_recv_def split: list.splits option.splits)
  next
    case (Release i)
    then show ?thesis by (simp add: chan_recv_def split: list.splits)
  next
    case (Deliver i)
    then show ?thesis by (simp split: list.splits)
  qed simp_all
qed



lemma waited_waiters: "play c as = Ok s \<Longrightarrow> CallWait \<in> set as \<Longrightarrow> waiters s \<noteq> []"
  using waiters_count[of c as s] waits_zero[of as] by auto

lemma no_panic_next:
  assumes "play c as = Ok s" and "disciplined (as @ [a])"
  shows "step a s \<noteq> Panics p"
proof -
  from assms(2) have d: "disciplined as" "is_call a \<longrightarrow> CallWait \<notin> set as"
    by (simp_all add: disciplined_snoc)
  from d(2) waiters_count[OF assms(1)] have "is_run a \<longrightarrow> waiters s = []"
    by (cases a) (auto simp: waits_zero[symmetric])
  with pool_inv_play[OF assms(1)] use_inv_play[OF assms(1) d(1)] show ?thesis
    by (rule no_panic)
qed

lemma wg_accounting: "play c as = Ok s \<Longrightarrow> wg s + dones as = submissions as"
proof (induction as arbitrary: s rule: rev_induct)
  case Nil
  then show ?case by (simp add: play_Nil_Ok New_Ok dones_def submissions_def)
next
  case (snoc a as)
  from snoc.prems obtain m where m: "play c as = Ok m" "step a m = Ok s"
    by (auto simp: play_snoc_Ok)
  from m(2) snoc.IH[OF m(1)] show ?case
    by (cases rule: step_cases) (auto simp: dones_def submissions_def)
qed

section \<open>The waiter\<close>

lemma closes_errors_count:
  "play c as = Ok s \<Longrightarrow> closes_errors as = (if ch_closed (Errors s) then 1 else 0)"
proof (induction as arbitrary: s rule: rev_induct)
  case Nil
  then show ?case by (simp add: play_Nil_Ok New_Ok closes_errors_def)
next
  case (snoc a as)
  from snoc.prems obtain m where m: "play c as = Ok m" "step a m = Ok s"
    by (auto simp: play_snoc_Ok)
  from m(2) snoc.IH[OF m(1)] show ?case
    by (cases rule: step_cases) (auto simp: closes_errors_def)
qed

lemma closes_semaphore_count:
  "play c as = Ok s \<Longrightarrow> closes_semaphore as = (if ch_closed (semaphore s) then 1 else 0)"
proof (induction as arbitrary: s rule: rev_induct)
  case Nil
  then show ?case by (simp add: play_Nil_Ok New_Ok closes_semaphore_def)
next
  case (snoc a as)
  from snoc.prems obtain m where m: "play c as = Ok m" "step a m = Ok s"
    by (auto simp: play_snoc_Ok)
  from m(2) snoc.IH[OF m(1)] show ?case
    by (cases rule: step_cases) (auto simp: closes_semaphore_def)
qed

lemma closing_witness:
  assumes "exec sched s = Ok t" and "list_all is_closing sched"
    and "ch_closed (Errors t)" and "ch_closed (semaphore t)" and "waiters t = [WaiterExited]"
  shows "\<exists>sched s'. list_all is_closing sched \<and> exec sched s = Ok s' \<and>
           ch_closed (Errors s') \<and> ch_closed (semaphore s') \<and> waiters s' = [WaiterExited]"
  using assms by blast

lemma closing_finishes:
  assumes inv: "pool_inv s" and one: "waiters s = [p]" and zero: "wg s = 0"
  shows "\<exists>sched s'. list_all is_closing sched \<and> exec sched s = Ok s' \<and>
           ch_closed (Errors s') \<and> ch_closed (semaphore s') \<and> waiters s' = [WaiterExited]"
proof -
  from inv one have cl: "ch_closed (Errors s) = past_close_errors p"
    "ch_closed (semaphore s) = (p = WaiterExited)"
    by (simp_all add: pool_inv_def close_inv_def)
  from inv one have sl: "wg_sleepers s = (if p = Parked then 1 else 0)"
    and wk: "waking s = (if wg s = 0 \<and> wg_sleepers s \<noteq> 0 then 1 else 0)"
    by (simp_all add: pool_inv_def wg_inv_def sleeping_def)
  show ?thesis
  proof (cases p)
    case AtWgWait
    with one zero cl sl have
      "exec [WgWait 0, CloseErrors 0, CloseSem 0] s =
       Ok (s\<lparr>Errors := (Errors s)\<lparr>ch_closed := True\<rparr>,
              semaphore := (semaphore s)\<lparr>ch_closed := True\<rparr>, waiters := [WaiterExited]\<rparr>)"
      by (simp add: waiter_at_def chan_close_def past_close_errors_def)
    then show ?thesis by (rule closing_witness) simp_all
  next
    case Parked
    with sl wk zero have "0 < waking s" by simp
    then obtain i where i: "worker_at s i AtWake" by (rule waking_worker)
    with Parked one zero cl have
      "exec [Wake i, Resume 0, CloseErrors 0, CloseSem 0] s =
       Ok (s\<lparr>wg_sleepers := 0, workers := move_worker i Exited (workers s),
              Errors := (Errors s)\<lparr>ch_closed := True\<rparr>,
              semaphore := (semaphore s)\<lparr>ch_closed := True\<rparr>, waiters := [WaiterExited]\<rparr>)"
      by (simp add: waiter_at_def chan_close_def past_close_errors_def)
    then show ?thesis by (rule closing_witness) simp_all
  next
    case Woken
    with one zero cl sl have
      "exec [Resume 0, CloseErrors 0, CloseSem 0] s =
       Ok (s\<lparr>Errors := (Errors s)\<lparr>ch_closed := True\<rparr>,
              semaphore := (semaphore s)\<lparr>ch_closed := True\<rparr>, waiters := [WaiterExited]\<rparr>)"
      by (simp add: waiter_at_def chan_close_def past_close_errors_def)
    then show ?thesis by (rule closing_witness) simp_all
  next
    case AtCloseErrors
    with one cl have
      "exec [CloseErrors 0, CloseSem 0] s =
       Ok (s\<lparr>Errors := (Errors s)\<lparr>ch_closed := True\<rparr>,
              semaphore := (semaphore s)\<lparr>ch_closed := True\<rparr>, waiters := [WaiterExited]\<rparr>)"
      by (simp add: waiter_at_def chan_close_def past_close_errors_def)
    then show ?thesis by (rule closing_witness) simp_all
  next
    case AtCloseSem
    with one cl have
      "exec [CloseSem 0] s =
       Ok (s\<lparr>semaphore := (semaphore s)\<lparr>ch_closed := True\<rparr>, waiters := [WaiterExited]\<rparr>)"
      by (simp add: waiter_at_def chan_close_def past_close_errors_def)
    then show ?thesis
      by (rule closing_witness) (use cl AtCloseSem in \<open>simp_all add: past_close_errors_def\<close>)
  next
    case WaiterExited
    have "exec [] s = Ok s" by simp
    then show ?thesis
      by (rule closing_witness)
        (use WaiterExited one cl in \<open>simp_all add: past_close_errors_def\<close>)
  qed
qed

section \<open>Submitting, and sending a result\<close>

lemma exec_runs:
  assumes "fns = [] \<or> wg s \<noteq> 0 \<or> wg_sleepers s = 0"
  shows "exec (map CallRun fns) s =
         Ok (s\<lparr>wg := wg s + length fns,
                workers := workers s @ map (\<lambda>fn. \<lparr>pc = AtAcquire, todo = fn\<rparr>) fns\<rparr>)"
  using assms
proof (induction fns arbitrary: s)
  case Nil
  show ?case by simp
next
  case (Cons fn fns)
  let ?m = "s\<lparr>wg := wg s + 1, workers := workers s @ [\<lparr>pc = AtAcquire, todo = fn\<rparr>]\<rparr>"
  from Cons.prems have "step (CallRun fn) s = Ok ?m" by auto
  moreover have "exec (map CallRun fns) ?m =
      Ok (?m\<lparr>wg := wg ?m + length fns,
             workers := workers ?m @ map (\<lambda>fn. \<lparr>pc = AtAcquire, todo = fn\<rparr>) fns\<rparr>)"
    by (rule Cons.IH) simp
  ultimately show ?case by simp
qed

lemma todo_move_nth: "i < length ws \<Longrightarrow> todo (move_worker j p ws ! i) = todo (ws ! i)"
  by (simp add: nth_move_worker)

lemma todo_changes_only_by_deliver:
  assumes "step a s = Ok s'" and "err_inv s" and "i < length (workers s)"
    and "todo (workers s' ! i) \<noteq> todo (workers s ! i)"
  shows "a = Deliver i \<and> \<not> drain_done s \<and>
         (\<exists>v. todo (workers s ! i) = v # todo (workers s' ! i) \<and>
              drained s' = drained s @ [v])"
  using assms(1)
proof (cases rule: step_cases)
  case (Run fn)
  with assms(3,4) show ?thesis by (simp add: nth_append)
next
  case (Handoff j k)
  with assms(3,4) show ?thesis by (simp add: todo_move_nth)
next
  case (Push j v vs)
  with assms(2) show ?thesis by (simp add: err_inv_def)
next
  case (Deliver j v vs)
  with assms(3,4) show ?thesis by (cases "i = j") (simp_all add: nth_list_update)
qed (use assms(3,4) in \<open>simp_all add: todo_move_nth\<close>)

section \<open>The order of the statements of a worker\<close>

lemma pc_todo_update:
  "i < length ws \<Longrightarrow> pc (ws[j := (ws ! j)\<lparr>todo := vs\<rparr>] ! i) = pc (ws ! i)"
  by (cases "i = j") simp_all

lemma stmt_step:
  assumes "step a s = Ok s'" and "x \<in> set (stmts_of i a)"
  shows "worker_at s i (pre_pc x) \<and> i < length (workers s') \<and>
         rank (post_pc x) \<le> rank (pc (workers s' ! i))"
  using assms(1)
proof (cases rule: step_cases)
  case (Handoff j k)
  from Handoff(2,3) have jk: "j \<noteq> k" by (auto simp: worker_at_def)
  from assms(2) Handoff(1) consider "i = j" "x = SAcquire" | "i = k" "x = SRelease"
    by (auto split: if_splits)
  then show ?thesis
  proof cases
    case 1
    with Handoff jk show ?thesis by (simp add: worker_at_def nth_move_worker)
  next
    case 2
    with Handoff jk show ?thesis by (simp add: worker_at_def nth_move_worker)
  qed
next
  case (Push j v vs)
  with assms(2) show ?thesis by (auto simp: worker_at_def split: if_splits)
next
  case (Deliver j v vs)
  with assms(2) show ?thesis by (auto simp: worker_at_def split: if_splits)
qed (use assms(2) in \<open>auto simp: worker_at_def nth_move_worker split: if_splits\<close>)

lemma rank_mono_step:
  assumes "step a s = Ok s'" and "i < length (workers s)"
  shows "i < length (workers s') \<and> rank (pc (workers s ! i)) \<le> rank (pc (workers s' ! i))"
  using assms(1)
proof (cases rule: step_cases)
  case (Run fn)
  with assms(2) show ?thesis by (simp add: nth_append)
next
  case (Handoff j k)
  with assms(2) show ?thesis by (auto simp: worker_at_def nth_move_worker)
next
  case (Push j v vs)
  with assms(2) show ?thesis by (simp add: pc_todo_update)
next
  case (Deliver j v vs)
  with assms(2) show ?thesis by (simp add: pc_todo_update)
qed (use assms(2) in \<open>auto simp: worker_at_def nth_move_worker\<close>)

text \<open>A step that takes a worker past a statement executes that statement: a worker
  advances one statement at a time, and starts before line 52.\<close>

lemma passes_statement:
  assumes "step a s = Ok s'"
    and "\<not> (i < length (workers s) \<and> rank (pre_pc x) < rank (pc (workers s ! i)))"
    and "i < length (workers s')" and "always_executed x"
    and "rank (pre_pc x) < rank (pc (workers s' ! i))"
  shows "x \<in> set (stmts_of i a)"
  using assms(1)
proof (cases rule: step_cases)
  case (Run fn)
  with assms(2,3,5) show ?thesis by (cases x) (auto simp: nth_append less_Suc_eq)
next
  case (Handoff j k)
  from Handoff(2,3) have jk: "j \<noteq> k" by (auto simp: worker_at_def)
  with Handoff assms(2,3,4,5) show ?thesis
    by (cases x) (auto simp: worker_at_def nth_move_worker split: if_splits)
next
  case (Push j v vs)
  with assms(2,3,5) show ?thesis by (simp add: pc_todo_update)
next
  case (Deliver j v vs)
  with assms(2,3,5) show ?thesis by (simp add: pc_todo_update)
qed (use assms(2,3,4,5) in
    \<open>cases x; auto simp: worker_at_def nth_move_worker split: if_splits\<close>)+

lemma executed_before:
  "play c as = Ok s \<Longrightarrow> p < length as \<Longrightarrow> x \<in> set (stmts_of i (as ! p)) \<Longrightarrow>
   i < length (workers s) \<and> rank (post_pc x) \<le> rank (pc (workers s ! i))"
proof (induction as arbitrary: s rule: rev_induct)
  case Nil
  then show ?case by simp
next
  case (snoc a as)
  from snoc.prems(1) obtain m where m: "play c as = Ok m" "step a m = Ok s"
    by (auto simp: play_snoc_Ok)
  show ?case
  proof (cases "p < length as")
    case True
    with snoc.prems(3) have "x \<in> set (stmts_of i (as ! p))" by (simp add: nth_append)
    from snoc.IH[OF m(1) True this] rank_mono_step[OF m(2), of i] show ?thesis by auto
  next
    case False
    with snoc.prems(2,3) have "x \<in> set (stmts_of i a)" by (simp add: nth_append)
    from stmt_step[OF m(2) this] show ?thesis by simp
  qed
qed

text \<open>Whatever a worker has got past, it has executed.\<close>

lemma executed_all:
  "play c as = Ok s \<Longrightarrow> i < length (workers s) \<Longrightarrow> always_executed x \<Longrightarrow>
   rank (pre_pc x) < rank (pc (workers s ! i)) \<Longrightarrow>
   \<exists>p < length as. x \<in> set (stmts_of i (as ! p))"
proof (induction as arbitrary: s rule: rev_induct)
  case Nil
  then show ?case by (simp add: play_Nil_Ok New_Ok)
next
  case (snoc a as)
  from snoc.prems(1) obtain m where m: "play c as = Ok m" "step a m = Ok s"
    by (auto simp: play_snoc_Ok)
  show ?case
  proof (cases "i < length (workers m) \<and> rank (pre_pc x) < rank (pc (workers m ! i))")
    case True
    with snoc.IH[OF m(1) _ snoc.prems(3)] obtain p where
      "p < length as" "x \<in> set (stmts_of i (as ! p))" by blast
    then show ?thesis by (intro exI[of _ p]) (simp add: nth_append)
  next
    case False
    from m(2) False snoc.prems(2,3,4) have "x \<in> set (stmts_of i a)"
      by (rule passes_statement)
    then show ?thesis by (intro exI[of _ "length as"]) simp
  qed
qed

lemma play_append_Ok:
  "play c (as @ bs) = Ok s \<longleftrightarrow> (\<exists>m. play c as = Ok m \<and> exec bs m = Ok s)"
  by (auto simp: play_Ok exec_append and_then_Ok)

lemma play_at:
  assumes "play c as = Ok s" and "q < length as"
  obtains m m' where "play c (take q as) = Ok m" "step (as ! q) m = Ok m'"
proof -
  from assms(2) have "as = take q as @ (as ! q # drop (Suc q) as)"
    by (simp add: id_take_nth_drop[symmetric])
  with assms(1) have "play c (take q as @ (as ! q # drop (Suc q) as)) = Ok s" by simp
  then obtain m where "play c (take q as) = Ok m" "exec (as ! q # drop (Suc q) as) m = Ok s"
    unfolding play_append_Ok by blast
  then show thesis using that by (auto simp: and_then_Ok)
qed

lemma earlier_statement:
  assumes "play c as = Ok s" and "p < q" and "q < length as"
    and "x \<in> set (stmts_of i (as ! p))" and "y \<in> set (stmts_of i (as ! q))"
  shows "rank (post_pc x) \<le> rank (pre_pc y)"
proof -
  from assms(1,3) obtain m m' where m: "play c (take q as) = Ok m" "step (as ! q) m = Ok m'"
    by (rule play_at)
  from assms(2,3) have p: "p < length (take q as)" by simp
  from assms(2,4) have "x \<in> set (stmts_of i (take q as ! p))" by simp
  from executed_before[OF m(1) p this] stmt_step[OF m(2) assms(5)] show ?thesis
    by (simp add: worker_at_def)
qed

lemma same_step_same_statement:
  assumes "play c as = Ok s" and "p < length as"
    and "x \<in> set (stmts_of i (as ! p))" and "y \<in> set (stmts_of i (as ! p))"
  shows "x = y"
proof -
  from assms(1,2) obtain m m' where m: "play c (take p as) = Ok m" "step (as ! p) m = Ok m'"
    by (rule play_at)
  from stmt_step[OF m(2) assms(3)] stmt_step[OF m(2) assms(4)]
  have same: "pre_pc x = pre_pc y" by (simp add: worker_at_def)
  from assms(3,4) have "x = y \<or> (x = SAcquire \<and> y = SRelease) \<or> (x = SRelease \<and> y = SAcquire)"
    by (cases "as ! p") (auto split: if_splits)
  with same show ?thesis by auto
qed

lemma order_ranks: "line_order x < line_order y \<Longrightarrow> rank (pre_pc x) < rank (post_pc y)"
  by (cases x; cases y) simp_all

lemma once_ranks: "x \<noteq> SPush \<Longrightarrow> rank (pre_pc x) < rank (post_pc x)"
  by (cases x) simp_all

lemma spawned_before:
  assumes "play c as = Ok s" and "p < length as" and "x \<in> set (stmts_of i (as ! p))"
  shows "i < submissions (take p as)"
proof -
  from assms(1,2) obtain m m' where m: "play c (take p as) = Ok m" "step (as ! p) m = Ok m'"
    by (rule play_at)
  from stmt_step[OF m(2) assms(3)] workers_count[OF m(1)] show ?thesis
    by (simp add: worker_at_def)
qed

lemma worker_at_move_iff:
  "worker_at s j q \<Longrightarrow>
   worker_at (s\<lparr>workers := move_worker j p (workers s)\<rparr>) i r \<longleftrightarrow>
   (if i = j then r = p else worker_at s i r)"
  by (auto simp: worker_at_def nth_move_worker)

lemma worker_at_todo_iff:
  "worker_at (s\<lparr>workers := (workers s)[j := (workers s ! j)\<lparr>todo := vs\<rparr>]\<rparr>) i r \<longleftrightarrow>
   worker_at s i r"
  by (auto simp: worker_at_def pc_todo_update)

lemma worker_at_unique: "worker_at s i p \<Longrightarrow> worker_at s i q \<Longrightarrow> p = q"
  by (simp add: worker_at_def)

lemma done_once_step:
  assumes "step a s = Ok s'"
  shows "(if worker_at s' i AtWake \<or> worker_at s' i Exited then 1 else 0) =
         (if worker_at s i AtWake \<or> worker_at s i Exited then 1 else 0) +
         (if a = Done i then 1 else (0::nat))"
  using assms
proof (cases rule: step_cases)
  case (Run fn)
  then show ?thesis by (auto simp: worker_at_def nth_append)
next
  case (Handoff j k)
  then show ?thesis by (auto simp: worker_at_def nth_move_worker)
next
  case (Push j v vs)
  then show ?thesis by (auto simp: worker_at_def pc_todo_update)
next
  case (Deliver j v vs)
  then show ?thesis by (auto simp: worker_at_def pc_todo_update)
qed (auto simp: worker_at_def nth_move_worker)

lemma done_once:
  "play c as = Ok s \<Longrightarrow>
   done_count i as = (if worker_at s i AtWake \<or> worker_at s i Exited then 1 else 0)"
proof (induction as arbitrary: s rule: rev_induct)
  case Nil
  then show ?case by (simp add: play_Nil_Ok New_Ok done_count_def worker_at_def)
next
  case (snoc a as)
  from snoc.prems obtain m where m: "play c as = Ok m" "step a m = Ok s"
    by (auto simp: play_snoc_Ok)
  from done_once_step[OF m(2), of i] snoc.IH[OF m(1)] show ?case
    by (simp add: done_count_def split: if_splits)
qed

lemma earlier_lines:
  "always_executed z \<Longrightarrow> line_order z < line_order y \<Longrightarrow> rank (pre_pc z) < rank (pre_pc y)"
  by (cases z; cases y) simp_all

lemma preceded_by:
  assumes "play c as = Ok s" and "q < length as" and "y \<in> set (stmts_of i (as ! q))"
    and "always_executed z" and "line_order z < line_order y"
  shows "\<exists>r < q. z \<in> set (stmts_of i (as ! r))"
proof -
  from assms(1,2) obtain m m' where m: "play c (take q as) = Ok m" "step (as ! q) m = Ok m'"
    by (rule play_at)
  from stmt_step[OF m(2) assms(3)] have at: "i < length (workers m)"
    "pc (workers m ! i) = pre_pc y"
    by (simp_all add: worker_at_def)
  from earlier_lines[OF assms(4,5)] at(2)
  have "rank (pre_pc z) < rank (pc (workers m ! i))" by simp
  from executed_all[OF m(1) at(1) assms(4) this] obtain r where
    r: "r < length (take q as)" "z \<in> set (stmts_of i (take q as ! r))" by blast
  with assms(2) show ?thesis by (intro exI[of _ r]) simp
qed

section \<open>Capacity zero\<close>

lemma all_waiting_at: "all_waiting s \<Longrightarrow> worker_at s i p \<Longrightarrow> p = AtAcquire"
  by (auto simp: all_waiting_def worker_at_def list_all_length)

lemma all_waiting_step:
  assumes "step a s = Ok s'" and "ch_cap (semaphore s) = 0" and "err_inv s"
    and "all_waiting s" and "drained s = []"
  shows "all_waiting s' \<and> drained s' = []"
  using assms(1)
proof (cases rule: step_cases)
  case (Run fn)
  with assms(4,5) show ?thesis by (simp add: all_waiting_def)
next
  case (Acquire i)
  with assms(2) show ?thesis by simp
next
  case (Handoff i j)
  with all_waiting_at[OF assms(4) Handoff(3)] show ?thesis by simp
next
  case (Push i v vs)
  with all_waiting_at[OF assms(4) Push(2)] show ?thesis by simp
next
  case (Deliver i v vs)
  with all_waiting_at[OF assms(4) Deliver(2)] show ?thesis by simp
next
  case (Return i)
  with all_waiting_at[OF assms(4) Return(2)] show ?thesis by simp
next
  case (Release_buffered i v vs)
  with all_waiting_at[OF assms(4) Release_buffered(2)] show ?thesis by simp
next
  case (Release_closed i)
  with all_waiting_at[OF assms(4) Release_closed(2)] show ?thesis by simp
next
  case (Done_wake i)
  with all_waiting_at[OF assms(4) Done_wake(2)] show ?thesis by simp
next
  case (Done i)
  with all_waiting_at[OF assms(4) Done(2)] show ?thesis by simp
next
  case (Wake i)
  with all_waiting_at[OF assms(4) Wake(2)] show ?thesis by simp
next
  case (Recv_value v vs)
  with assms(3) show ?thesis by (simp add: err_inv_def)
qed (use assms(4,5) in \<open>simp_all add: all_waiting_def\<close>)

lemma all_waiting_play: "play 0 as = Ok s \<Longrightarrow> all_waiting s \<and> drained s = []"
proof (induction as arbitrary: s rule: rev_induct)
  case Nil
  then show ?case by (simp add: play_Nil_Ok New_Ok all_waiting_def)
next
  case (snoc a as)
  from snoc.prems obtain m where m: "play 0 as = Ok m" "step a m = Ok s"
    by (auto simp: play_snoc_Ok)
  from sem_cap_play[OF m(1)] have cap: "ch_cap (semaphore m) = 0" by simp
  from pool_inv_play[OF m(1)] have sem: "err_inv m" by (simp add: pool_inv_def)
  from snoc.IH[OF m(1)] all_waiting_step[OF m(2) cap sem] show ?case by simp
qed

lemma never_admitted:
  assumes "play 0 as = Ok s"
  shows "step (Acquire i) s \<noteq> Ok s'" and "step (Handoff i j) s \<noteq> Ok s'"
proof -
  from sem_cap_play[OF assms] show "step (Acquire i) s \<noteq> Ok s'"
    by (auto simp: chan_send_def split: if_splits)
  from all_waiting_play[OF assms] have "\<not> worker_at s j AtRelease"
    using all_waiting_at by fastforce
  then show "step (Handoff i j) s \<noteq> Ok s'" by simp
qed

lemma blocked_at_acquire:
  assumes "play 0 as = Ok s" and "disciplined as" and "i < length (workers s)"
  shows "step (Acquire i) s = Blocks"
proof -
  have inv: "pool_inv s" using assms(1) by (rule pool_inv_play)
  have use: "use_inv s" using assms(1,2) by (rule use_inv_play)
  from all_waiting_play[OF assms(1)] assms(3) have at: "worker_at s i AtAcquire"
    by (simp add: all_waiting_def worker_at_def list_all_length)
  from no_panic[OF inv use, of "Acquire i"] never_admitted(1)[OF assms(1), of i]
  show ?thesis by (cases "step (Acquire i) s") auto
qed

lemma running_all_waiting: "all_waiting s \<Longrightarrow> running s = 0"
  by (auto simp: all_waiting_def running_def holds_permit_def list_all_iff filter_empty_conv)

section \<open>Misuse\<close>

lemma second_close_panics:
  assumes "wg s = 0" and "waiter_at s j AtWgWait" and "waiter_at s k AtWgWait" and "j \<noteq> k"
  shows "exec [WgWait j, WgWait k, CloseErrors j, CloseErrors k] s = Panics CloseOfClosed"
proof (cases "ch_closed (Errors s)")
  case True
  with assms show ?thesis by (simp add: waiter_at_def chan_close_def)
next
  case False
  with assms show ?thesis by (simp add: waiter_at_def chan_close_def)
qed

lemma run_after_close_panics:
  assumes "ch_closed (semaphore s)"
  shows "exec [CallRun fn, Acquire (length (workers s))] s =
         Panics (if wg s = 0 \<and> wg_sleepers s \<noteq> 0 then WaitGroupMisuse else SendOnClosed)"
  using assms by (simp add: worker_at_def chan_send_def)

section \<open>The heap: allocation and frame\<close>

lemma heap_New_Ok:
  "heap_New c h = Ok (p, h') \<longleftrightarrow>
   0 \<le> c \<and> p = length (pools h) \<and>
   h' = h\<lparr>wait_groups := wait_groups h @ [(0, 0)],
          error_chans := error_chans h @ [\<lparr>ch_cap = 0, ch_buf = [], ch_closed = False\<rparr>],
          bool_chans := bool_chans h @ [\<lparr>ch_cap = nat c, ch_buf = [], ch_closed = False\<rparr>],
          pools := pools h @ [\<lparr>Errors_at = length (error_chans h),
                                semaphore_at = length (bool_chans h),
                                wg_at = length (wait_groups h)\<rparr>],
          gangs := gangs h @ [\<lparr>g_workers = [], g_waiters = [], g_drained = [],
                                g_drain_done = False\<rparr>]\<rparr>"
  by (auto simp: heap_New_def make_chan_def)

lemma heap_inv_New:
  assumes "heap_New c h = Ok (p, h')" and "heap_inv h"
  shows "heap_inv h'" and "p = length (pools h)" and "length (pools h') = Suc (length (pools h))"
  using assms by (auto simp: heap_New_Ok heap_inv_def nth_append less_Suc_eq)

lemma on_pool_Ok:
  "on_pool p a h = Ok h' \<longleftrightarrow>
   (\<exists>s s'. load p h = Some s \<and> step a s = Ok s' \<and> h' = store p s' h)"
  by (auto simp: on_pool_def and_then_Ok split: option.splits)

lemma load_Some_pool: "load p h = Some s \<Longrightarrow> p < length (pools h)"
  by (simp add: load_def split: if_splits)

lemma heap_inv_store: "heap_inv h \<Longrightarrow> heap_inv (store p s h)"
  by (simp add: heap_inv_def store_def)

lemma pools_store: "pools (store p s h) = pools h"
  by (simp add: store_def)

lemma load_store_other:
  assumes "heap_inv h" and "p < length (pools h)" and "q < length (pools h)" and "p \<noteq> q"
  shows "load q (store p s h) = load q h"
  using assms by (simp add: heap_inv_def load_def store_def)

lemma load_allocated: "heap_inv h \<Longrightarrow> q < length (pools h) \<Longrightarrow> load q h \<noteq> None"
  by (simp add: heap_inv_def load_def)

lemma frame:
  assumes "heap_inv h" and "on_pool p a h = Ok h'" and "q < length (pools h)" and "p \<noteq> q"
  shows "load q h' = load q h"
proof -
  from assms(2) obtain s s' where s: "load p h = Some s" "h' = store p s' h"
    by (auto simp: on_pool_Ok)
  from load_store_other[OF assms(1) load_Some_pool[OF s(1)] assms(3,4)] s(2)
  show ?thesis by simp
qed

lemma prog_inv_step:
  assumes "cmd_step c g = Ok g'" and "prog_inv g"
  shows "prog_inv g'"
proof (cases c)
  case (MkPool n)
  with assms(1) obtain p h where ph: "heap_New n (heap g) = Ok (p, h)"
    "g' = \<lparr>heap = h, made = made g @ [p]\<rparr>"
    by (auto simp: and_then_Ok)
  from heap_inv_New[OF ph(1)] assms(2) ph(2) show ?thesis by (simp add: prog_inv_def)
next
  case (On p a)
  with assms(1) obtain h where h: "on_pool p a (heap g) = Ok h" "g' = g\<lparr>heap := h\<rparr>"
    by (auto simp: and_then_Ok)
  from h(1) obtain s' where "h = store p s' (heap g)" by (auto simp: on_pool_Ok)
  with assms(2) h(2) show ?thesis by (simp add: prog_inv_def heap_inv_store pools_store)
qed

lemma prog_inv_run: "run cs g = Ok g' \<Longrightarrow> prog_inv g \<Longrightarrow> prog_inv g'"
proof (induction cs arbitrary: g)
  case Nil
  then show ?case by simp
next
  case (Cons c cs)
  from Cons.prems(1) obtain m where "cmd_step c g = Ok m" "run cs m = Ok g'"
    by (auto simp: and_then_Ok)
  with Cons.IH Cons.prems(2) show ?case by (blast intro: prog_inv_step)
qed

lemma prog_inv_start: "prog_inv start"
  by (simp add: prog_inv_def start_def empty_heap_def heap_inv_def)

lemma load_store_same:
  "heap_inv h \<Longrightarrow> p < length (pools h) \<Longrightarrow> load p (store p s h) = Some s"
  by (simp add: heap_inv_def load_def store_def)

lemma run_on_pool:
  assumes "run (map (On p) as) g = Ok g'" and "prog_inv g"
  shows "made g' = made g \<and> pools (heap g') = pools (heap g) \<and>
         (\<forall>q. q < length (pools (heap g)) \<and> p \<noteq> q \<longrightarrow>
              load q (heap g') = load q (heap g)) \<and>
         (\<forall>s. load p (heap g) = Some s \<longrightarrow>
              (\<exists>s'. exec as s = Ok s' \<and> load p (heap g') = Some s'))"
  using assms
proof (induction as arbitrary: g)
  case Nil
  then show ?case by simp
next
  case (Cons a as)
  from Cons.prems(1) obtain h where h: "on_pool p a (heap g) = Ok h"
    "run (map (On p) as) (g\<lparr>heap := h\<rparr>) = Ok g'"
    by (auto simp: and_then_Ok)
  let ?m = "g\<lparr>heap := h\<rparr>"
  from h(1) obtain s s' where s: "load p (heap g) = Some s" "step a s = Ok s'"
    "h = store p s' (heap g)"
    by (auto simp: on_pool_Ok)
  from Cons.prems(2) have inv: "heap_inv (heap g)" by (simp add: prog_inv_def)
  have m: "prog_inv ?m"
    using Cons.prems(2) s(3) by (simp add: prog_inv_def heap_inv_store pools_store)
  have same: "pools (heap ?m) = pools (heap g)" using s(3) by (simp add: pools_store)
  have here: "load p (heap ?m) = Some s'"
    using load_store_same[OF inv load_Some_pool[OF s(1)]] s(3) by simp
  have there: "load q (heap ?m) = load q (heap g)"
    if "q < length (pools (heap g))" "p \<noteq> q" for q
    using frame[OF inv h(1) that] by simp
  from Cons.IH[OF h(2) m] same here there s(1,2) show ?case by (auto simp: and_then_Ok)
qed

section \<open>The claims\<close>

text \<open>
  C1. On a Pool constructed with capacity \<open>N \<ge> 1\<close>, whatever calls are made and however
  the goroutines are interleaved, in every state that is reached the number of workers
  between their permit-acquire (the send of line 52) and their permit-release (the receive
  of line 54) is at most \<open>N\<close>.
\<close>

theorem concurrency_bound:
  assumes "play N as = Ok s" and "1 \<le> N"
  shows "int (running s) \<le> N"
proof -
  from assms(1) have "sem_inv s" using pool_inv_play by (auto simp: pool_inv_def)
  then have "running s \<le> ch_cap (semaphore s)" by (simp add: sem_inv_def)
  with sem_cap_play[OF assms(1)] show ?thesis by linarith
qed

theorem concurrency_bound_witness:
  "play 1 [CallRun [10::nat], CallRun [20], CallRun [30], Acquire 1] =
     Ok \<lparr>Errors = \<lparr>ch_cap = 0, ch_buf = [], ch_closed = False\<rparr>,
         semaphore = \<lparr>ch_cap = 1, ch_buf = [True], ch_closed = False\<rparr>, wg = 3, wg_sleepers = 0,
         workers = [\<lparr>pc = AtAcquire, todo = [10]\<rparr>, \<lparr>pc = InBody, todo = [20]\<rparr>,
                    \<lparr>pc = AtAcquire, todo = [30]\<rparr>],
         waiters = [], drained = [], drain_done = False\<rparr> \<and>
   (1::int) \<le> 1 \<and>
   int (running \<lparr>Errors = \<lparr>ch_cap = 0, ch_buf = [], ch_closed = False\<rparr>,
         semaphore = \<lparr>ch_cap = 1, ch_buf = [True], ch_closed = False\<rparr>, wg = 3, wg_sleepers = 0,
         workers = [\<lparr>pc = AtAcquire, todo = [10::nat]\<rparr>, \<lparr>pc = InBody, todo = [20]\<rparr>,
                    \<lparr>pc = AtAcquire, todo = [30]\<rparr>],
         waiters = [], drained = [], drain_done = False\<rparr>) \<le> 1"
proof -
  have run: "play 1 [CallRun [10::nat], CallRun [20], CallRun [30], Acquire 1] =
     Ok \<lparr>Errors = \<lparr>ch_cap = 0, ch_buf = [], ch_closed = False\<rparr>,
         semaphore = \<lparr>ch_cap = 1, ch_buf = [True], ch_closed = False\<rparr>, wg = 3, wg_sleepers = 0,
         workers = [\<lparr>pc = AtAcquire, todo = [10]\<rparr>, \<lparr>pc = InBody, todo = [20]\<rparr>,
                    \<lparr>pc = AtAcquire, todo = [30]\<rparr>],
         waiters = [], drained = [], drain_done = False\<rparr>"
    by code_simp
  have cap: "(1::int) \<le> 1" by simp
  from concurrency_bound[OF run cap] run cap show ?thesis by blast
qed

text \<open>
  C2, as amended. On a Pool used as documented (\<^verbatim>\<open>Wait\<close> at most once, no
  \<^verbatim>\<open>Run\<close> after it), in every state any interleaving reaches: if \<^verbatim>\<open>p.Errors\<close> is
  closed then the counter is zero and \<^verbatim>\<open>Wait\<close> has been called. The converse holds
  after the steps that remain, not at once: when the counter is zero and \<^verbatim>\<open>Wait\<close>
  has been called, some schedule made only of the wake-up inside \<^verbatim>\<open>p.wg.Done()\<close> and of
  statements of the waiter runs from that state without blocking and leaves both
  channels closed and the waiter finished. \<^verbatim>\<open>Wait\<close> itself is enabled and changes
  neither the Pool's objects nor the workers. Line 43 has been executed once if
  \<^verbatim>\<open>p.Errors\<close> is closed and never otherwise, and likewise line 44 and
  \<^verbatim>\<open>p.semaphore\<close>; and no step that keeps the use documented panics.
\<close>

theorem close_when_complete:
  assumes "play N as = Ok s" and "disciplined as"
  shows "(ch_closed (Errors s) \<longrightarrow> wg s = 0 \<and> CallWait \<in> set as) \<and>
         (wg s = 0 \<and> CallWait \<in> set as \<longrightarrow>
            (\<exists>sched s'. list_all is_closing sched \<and> exec sched s = Ok s' \<and>
                  ch_closed (Errors s') \<and> ch_closed (semaphore s') \<and>
                  waiters s' = [WaiterExited])) \<and>
         (\<exists>s'. step CallWait s = Ok s' \<and> Errors s' = Errors s \<and>
               semaphore s' = semaphore s \<and> wg s' = wg s \<and> workers s' = workers s) \<and>
         closes_errors as = (if ch_closed (Errors s) then 1 else 0) \<and>
         closes_semaphore as = (if ch_closed (semaphore s) then 1 else 0) \<and>
         (\<forall>a p. disciplined (as @ [a]) \<longrightarrow> step a s \<noteq> Panics p)"
proof -
  have inv: "pool_inv s" using assms(1) by (rule pool_inv_play)
  have use: "use_inv s" using assms by (rule use_inv_play)
  have 1: "wg s = 0 \<and> CallWait \<in> set as" if closed: "ch_closed (Errors s)"
  proof -
    from inv closed have "list_ex past_close_errors (waiters s)"
      by (auto simp add: pool_inv_def close_inv_def)
    then have "waiters s \<noteq> []" by auto
    with waiters_count[OF assms(1)] have "CallWait \<in> set as"
      using waits_zero[of as] by auto
    with closed_all_done(1)[OF inv use closed] show ?thesis by simp
  qed
  have 2: "\<exists>sched s'. list_all is_closing sched \<and> exec sched s = Ok s' \<and>
             ch_closed (Errors s') \<and> ch_closed (semaphore s') \<and> waiters s' = [WaiterExited]"
    if "wg s = 0" "CallWait \<in> set as"
  proof -
    from waited_waiters[OF assms(1) that(2)] use obtain p where "waiters s = [p]"
      by (cases "waiters s") (auto simp: use_inv_def)
    from closing_finishes[OF inv this that(1)] show ?thesis .
  qed
  have 3: "\<exists>s'. step CallWait s = Ok s' \<and> Errors s' = Errors s \<and>
             semaphore s' = semaphore s \<and> wg s' = wg s \<and> workers s' = workers s"
    by simp
  note 4 = closes_errors_count[OF assms(1)] closes_semaphore_count[OF assms(1)]
  have 5: "\<forall>a p. disciplined (as @ [a]) \<longrightarrow> step a s \<noteq> Panics p"
    using no_panic_next[OF assms(1)] by blast
  from 1 2 3 4 5 show ?thesis by blast
qed

theorem close_when_complete_witness:
  "play 1 [CallRun [7::nat], CallWait, WgWait 0, Acquire 0, Deliver 0, Return 0, Release 0, Done 0] =
   Ok \<lparr>Errors = \<lparr>ch_cap = 0, ch_buf = [], ch_closed = False\<rparr>,
      semaphore = \<lparr>ch_cap = 1, ch_buf = [], ch_closed = False\<rparr>, wg = 0, wg_sleepers = 1,
      workers = [\<lparr>pc = AtWake, todo = []\<rparr>], waiters = [Parked],
      drained = [7::nat], drain_done = False\<rparr> \<and>
   disciplined [CallRun [7::nat], CallWait, WgWait 0, Acquire 0, Deliver 0, Return 0, Release 0, Done 0] \<and>
   wg \<lparr>Errors = \<lparr>ch_cap = 0, ch_buf = [], ch_closed = False\<rparr>,
      semaphore = \<lparr>ch_cap = 1, ch_buf = [], ch_closed = False\<rparr>, wg = 0, wg_sleepers = 1,
      workers = [\<lparr>pc = AtWake, todo = []\<rparr>], waiters = [Parked],
      drained = [7::nat], drain_done = False\<rparr> = 0 \<and>
   CallWait \<in> set [CallRun [7::nat], CallWait, WgWait 0, Acquire 0, Deliver 0, Return 0, Release 0, Done 0] \<and>
   \<not> ch_closed (Errors \<lparr>Errors = \<lparr>ch_cap = 0, ch_buf = [], ch_closed = False\<rparr>,
      semaphore = \<lparr>ch_cap = 1, ch_buf = [], ch_closed = False\<rparr>, wg = 0, wg_sleepers = 1,
      workers = [\<lparr>pc = AtWake, todo = []\<rparr>], waiters = [Parked],
      drained = [7::nat], drain_done = False\<rparr>) \<and>
   list_all is_closing [Wake 0, Resume 0, CloseErrors 0, CloseSem 0 :: nat action] \<and>
   exec [Wake 0, Resume 0, CloseErrors 0, CloseSem 0]
     \<lparr>Errors = \<lparr>ch_cap = 0, ch_buf = [], ch_closed = False\<rparr>,
      semaphore = \<lparr>ch_cap = 1, ch_buf = [], ch_closed = False\<rparr>, wg = 0, wg_sleepers = 1,
      workers = [\<lparr>pc = AtWake, todo = []\<rparr>], waiters = [Parked],
      drained = [7::nat], drain_done = False\<rparr> =
   Ok \<lparr>Errors = \<lparr>ch_cap = 0, ch_buf = [], ch_closed = True\<rparr>,
      semaphore = \<lparr>ch_cap = 1, ch_buf = [], ch_closed = True\<rparr>, wg = 0, wg_sleepers = 0,
      workers = [\<lparr>pc = Exited, todo = []\<rparr>], waiters = [WaiterExited],
      drained = [7::nat], drain_done = False\<rparr> \<and>
   closes_errors [CallRun [7::nat], CallWait, WgWait 0, Acquire 0, Deliver 0, Return 0, Release 0, Done 0] = 0"
proof -
  let ?tr = "[CallRun [7::nat], CallWait, WgWait 0, Acquire 0, Deliver 0, Return 0, Release 0, Done 0]"
  let ?st = "\<lparr>Errors = \<lparr>ch_cap = 0, ch_buf = [], ch_closed = False\<rparr>,
      semaphore = \<lparr>ch_cap = 1, ch_buf = [], ch_closed = False\<rparr>, wg = 0, wg_sleepers = 1,
      workers = [\<lparr>pc = AtWake, todo = []\<rparr>], waiters = [Parked],
      drained = [7::nat], drain_done = False\<rparr>"
  let ?st2 = "\<lparr>Errors = \<lparr>ch_cap = 0, ch_buf = [], ch_closed = True\<rparr>,
      semaphore = \<lparr>ch_cap = 1, ch_buf = [], ch_closed = True\<rparr>, wg = 0, wg_sleepers = 0,
      workers = [\<lparr>pc = Exited, todo = []\<rparr>], waiters = [WaiterExited],
      drained = [7::nat], drain_done = False\<rparr>"
  have run: "play 1 ?tr = Ok ?st" by code_simp
  have use: "disciplined ?tr" by simp
  have zero: "wg ?st = 0" by simp
  have waited: "CallWait \<in> set ?tr" by simp
  have opn: "\<not> ch_closed (Errors ?st)" by simp
  have closing: "list_all is_closing [Wake 0, Resume 0, CloseErrors 0, CloseSem 0 :: nat action]"
    by simp
  have rest: "exec [Wake 0, Resume 0, CloseErrors 0, CloseSem 0] ?st = Ok ?st2" by code_simp
  from close_when_complete[OF run use] opn have "closes_errors ?tr = 0" by simp
  with run use zero waited opn closing rest show ?thesis by blast
qed

text \<open>The claim as written fails: right after a call of \<^verbatim>\<open>Wait\<close> on a fresh Pool
  the counter is zero and \<^verbatim>\<open>Wait\<close> has been called, and \<^verbatim>\<open>p.Errors\<close> is open: the
  waiter has not run yet.\<close>

theorem close_not_immediate_counterexample:
  "play 1 ([CallWait] :: nat action list) =
   Ok \<lparr>Errors = \<lparr>ch_cap = 0, ch_buf = [], ch_closed = False\<rparr>,
      semaphore = \<lparr>ch_cap = 1, ch_buf = [], ch_closed = False\<rparr>, wg = 0, wg_sleepers = 0,
      workers = ([] :: nat worker list), waiters = [AtWgWait], drained = [],
      drain_done = False\<rparr>"
  by code_simp





text \<open>
  C4. A call of \<^verbatim>\<open>Run\<close> that returns has incremented the counter in the calling
  goroutine, in the step that starts the worker, which then stands before line 52; and
  before \<^verbatim>\<open>Wait\<close> is called every call of \<^verbatim>\<open>Run\<close> returns. In every
  schedule, for every worker \<open>i\<close>: a statement of the worker is executed only after
  the call of \<^verbatim>\<open>Run\<close> that started it; its statements are executed in the order of
  the program (permit-acquire, the sends and the return of the unit, permit-release,
  the decrement of \<^verbatim>\<open>p.wg.Done()\<close>, its wake-up of the waiters); each of them other
  than a send is executed at most once; whenever one of them is executed, the
  permit-acquire, the return of the unit, the permit-release and the decrement that
  come before it in the program have been executed before it; the decrement has been
  executed exactly once when the worker is past it and never before; and the counter is
  the number of submissions minus the number of executed decrements.
\<close>

theorem unit_statement_order:
  assumes "play N as = Ok s" and "p < length as" and "q < length as"
    and "x \<in> set (stmts_of i (as ! p))" and "y \<in> set (stmts_of i (as ! q))"
  shows "(line_order x < line_order y \<longrightarrow> p < q) \<and>
         (x = y \<and> x \<noteq> SPush \<longrightarrow> p = q) \<and>
         (\<forall>z. always_executed z \<and> line_order z < line_order y \<longrightarrow>
              (\<exists>r < q. z \<in> set (stmts_of i (as ! r)))) \<and>
         i < submissions (take p as) \<and>
         done_count i as = (if worker_at s i AtWake \<or> worker_at s i Exited then 1 else 0) \<and>
         wg s + dones as = submissions as \<and>
         (\<forall>fn s'. step (CallRun fn) s = Ok s' \<longrightarrow>
              wg s' = wg s + 1 \<and> length (workers s') = length (workers s) + 1 \<and>
              worker_at s' (length (workers s)) AtAcquire) \<and>
         (CallWait \<notin> set as \<longrightarrow> (\<forall>fn. \<exists>s'. step (CallRun fn) s = Ok s'))"
proof -
  have 1: "p < q" if lt: "line_order x < line_order y"
  proof (rule ccontr)
    assume "\<not> p < q"
    then consider "q = p" | "q < p" by linarith
    then show False
    proof cases
      case 1
      with same_step_same_statement[OF assms(1,2,4)] assms(5) have "x = y" by simp
      with lt show False by simp
    next
      case 2
      from earlier_statement[OF assms(1) 2 assms(2,5,4)] order_ranks[OF lt]
      show False by simp
    qed
  qed
  have 2: "p = q" if same: "x = y" "x \<noteq> SPush"
  proof (rule ccontr)
    assume "p \<noteq> q"
    then consider "p < q" | "q < p" by linarith
    then show False
    proof cases
      case 1
      from earlier_statement[OF assms(1) 1 assms(3,4,5)] once_ranks[OF same(2)] same(1)
      show False by simp
    next
      case 2
      from earlier_statement[OF assms(1) 2 assms(2,5,4)] once_ranks[OF same(2)] same(1)
      show False by simp
    qed
  qed
  have 3: "i < submissions (take p as)" using assms(1,2,4) by (rule spawned_before)
  have 4: "done_count i as = (if worker_at s i AtWake \<or> worker_at s i Exited then 1 else 0)"
    using assms(1) by (rule done_once)
  have 5: "wg s + dones as = submissions as" using assms(1) by (rule wg_accounting)
  have 6: "\<forall>fn s'. step (CallRun fn) s = Ok s' \<longrightarrow>
              wg s' = wg s + 1 \<and> length (workers s') = length (workers s) + 1 \<and>
              worker_at s' (length (workers s)) AtAcquire"
    by (auto simp: worker_at_def split: if_splits)
  have 7: "\<forall>z. always_executed z \<and> line_order z < line_order y \<longrightarrow>
              (\<exists>r < q. z \<in> set (stmts_of i (as ! r)))"
    using preceded_by[OF assms(1,3,5)] by blast
  have 8: "\<forall>fn. \<exists>s'. step (CallRun fn) s = Ok s'" if "CallWait \<notin> set as"
  proof -
    from that waiters_count[OF assms(1)] have "waiters s = []"
      by (simp add: waits_zero[symmetric])
    with pool_inv_play[OF assms(1)] have "wg_sleepers s = 0"
      by (simp add: pool_inv_def wg_inv_def sleeping_def)
    then show ?thesis by simp
  qed
  from 1 2 3 4 5 6 7 8 show ?thesis by blast
qed

theorem unit_statement_order_witness:
  "play 1 [CallRun [7::nat], Acquire 0, Deliver 0, Return 0, Release 0, Done 0] =
   Ok \<lparr>Errors = \<lparr>ch_cap = 0, ch_buf = [], ch_closed = False\<rparr>,
      semaphore = \<lparr>ch_cap = 1, ch_buf = [], ch_closed = False\<rparr>, wg = 0, wg_sleepers = 0,
      workers = [\<lparr>pc = Exited, todo = []\<rparr>], waiters = [], drained = [7::nat],
      drain_done = False\<rparr> \<and>
   (4::nat) < length [CallRun [7::nat], Acquire 0, Deliver 0, Return 0, Release 0, Done 0] \<and>
   (1::nat) < length [CallRun [7::nat], Acquire 0, Deliver 0, Return 0, Release 0, Done 0] \<and>
   SRelease \<in> set (stmts_of 0 ([CallRun [7::nat], Acquire 0, Deliver 0, Return 0, Release 0, Done 0] ! 4)) \<and>
   SAcquire \<in> set (stmts_of 0 ([CallRun [7::nat], Acquire 0, Deliver 0, Return 0, Release 0, Done 0] ! 1)) \<and>
   line_order SAcquire < line_order SRelease \<and>
   (0::nat) < submissions (take 1 [CallRun [7::nat], Acquire 0, Deliver 0, Return 0, Release 0, Done 0]) \<and>
   done_count 0 [CallRun [7::nat], Acquire 0, Deliver 0, Return 0, Release 0, Done 0] = 1"
proof -
  let ?tr = "[CallRun [7::nat], Acquire 0, Deliver 0, Return 0, Release 0, Done 0]"
  let ?st = "\<lparr>Errors = \<lparr>ch_cap = 0, ch_buf = [], ch_closed = False\<rparr>,
      semaphore = \<lparr>ch_cap = 1, ch_buf = [], ch_closed = False\<rparr>, wg = 0, wg_sleepers = 0,
      workers = [\<lparr>pc = Exited, todo = []\<rparr>], waiters = [], drained = [7::nat],
      drain_done = False\<rparr>"
  have run: "play 1 ?tr = Ok ?st" by code_simp
  have p: "(1::nat) < length ?tr" and q: "(4::nat) < length ?tr" by simp_all
  have x: "SAcquire \<in> set (stmts_of 0 (?tr ! 1))" by simp
  have y: "SRelease \<in> set (stmts_of 0 (?tr ! 4))" by simp
  have lt: "line_order SAcquire < line_order SRelease" by simp
  have fin: "worker_at ?st 0 Exited" by (simp add: worker_at_def)
  from unit_statement_order[OF run p q x y] fin
  have "(0::nat) < submissions (take 1 ?tr) \<and> done_count 0 ?tr = 1" by simp
  with run p q x y lt show ?thesis by blast
qed

text \<open>
  C5, as amended. In every state any interleaving reaches on a Pool of capacity \<open>N\<close>,
  however many permits are held, a call of \<^verbatim>\<open>Run\<close> never blocks. It panics, in
  \<^verbatim>\<open>p.wg.Add(1)\<close>, exactly when the counter is zero while a waiter sleeps, which
  cannot be before \<^verbatim>\<open>Wait\<close> has been called. Otherwise any number of
  \<^verbatim>\<open>Run\<close> calls all return: each one increments the counter and starts one more
  goroutine that waits at line 52. So the number of goroutines waiting for a permit grows
  with the submissions without bound, while the number of running units is unchanged and
  at most \<open>N\<close>.
\<close>

theorem run_never_blocks:
  assumes "play N as = Ok s"
  shows "(\<forall>fn. step (CallRun fn) s \<noteq> Blocks) \<and>
         (\<forall>fn p. step (CallRun fn) s = Panics p \<longleftrightarrow>
              p = WaitGroupMisuse \<and> wg s = 0 \<and> wg_sleepers s \<noteq> 0) \<and>
         (CallWait \<notin> set as \<longrightarrow> wg_sleepers s = 0) \<and>
         (fns = [] \<or> wg s \<noteq> 0 \<or> wg_sleepers s = 0 \<longrightarrow>
            (\<exists>s'. exec (map CallRun fns) s = Ok s' \<and>
                 length (workers s') = length (workers s) + length fns \<and>
                 waiting s' = waiting s + length fns \<and>
                 wg s' = wg s + length fns \<and>
                 running s' = running s \<and> int (running s') \<le> N))"
proof -
  have 1: "\<forall>fn. step (CallRun fn) s \<noteq> Blocks" by simp
  have 2: "\<forall>fn p. step (CallRun fn) s = Panics p \<longleftrightarrow>
              p = WaitGroupMisuse \<and> wg s = 0 \<and> wg_sleepers s \<noteq> 0"
    by auto
  have 3: "wg_sleepers s = 0" if "CallWait \<notin> set as"
  proof -
    from that waiters_count[OF assms] have "waiters s = []"
      by (simp add: waits_zero[symmetric])
    with pool_inv_play[OF assms] show ?thesis
      by (simp add: pool_inv_def wg_inv_def sleeping_def)
  qed
  have 4: "\<exists>s'. exec (map CallRun fns) s = Ok s' \<and>
                 length (workers s') = length (workers s) + length fns \<and>
                 waiting s' = waiting s + length fns \<and>
                 wg s' = wg s + length fns \<and>
                 running s' = running s \<and> int (running s') \<le> N"
    if ok: "fns = [] \<or> wg s \<noteq> 0 \<or> wg_sleepers s = 0"
  proof -
    let ?s' = "s\<lparr>wg := wg s + length fns,
                 workers := workers s @ map (\<lambda>fn. \<lparr>pc = AtAcquire, todo = fn\<rparr>) fns\<rparr>"
    have run: "exec (map CallRun fns) s = Ok ?s'" using ok by (rule exec_runs)
    have w: "waiting ?s' = waiting s + length fns"
      by (simp add: waiting_def filter_map comp_def)
    have r: "running ?s' = running s"
      by (simp add: running_def holds_permit_def filter_map comp_def)
    from assms have "sem_inv s" using pool_inv_play by (auto simp: pool_inv_def)
    then have "running s \<le> ch_cap (semaphore s)" by (simp add: sem_inv_def)
    with sem_cap_play[OF assms] have "int (running s) \<le> N" by linarith
    with run w r show ?thesis by (intro exI[of _ ?s']) simp
  qed
  from 1 2 3 4 show ?thesis by blast
qed

theorem run_never_blocks_witness:
  "play 1 [CallRun [1::nat], Acquire 0] =
   Ok \<lparr>Errors = \<lparr>ch_cap = 0, ch_buf = [], ch_closed = False\<rparr>,
      semaphore = \<lparr>ch_cap = 1, ch_buf = [True], ch_closed = False\<rparr>, wg = 1, wg_sleepers = 0,
      workers = [\<lparr>pc = InBody, todo = [1::nat]\<rparr>], waiters = [], drained = [],
      drain_done = False\<rparr> \<and>
   exec (map CallRun [[2], [3]])
     \<lparr>Errors = \<lparr>ch_cap = 0, ch_buf = [], ch_closed = False\<rparr>,
      semaphore = \<lparr>ch_cap = 1, ch_buf = [True], ch_closed = False\<rparr>, wg = 1, wg_sleepers = 0,
      workers = [\<lparr>pc = InBody, todo = [1::nat]\<rparr>], waiters = [], drained = [],
      drain_done = False\<rparr> =
   Ok \<lparr>Errors = \<lparr>ch_cap = 0, ch_buf = [], ch_closed = False\<rparr>,
      semaphore = \<lparr>ch_cap = 1, ch_buf = [True], ch_closed = False\<rparr>, wg = 3, wg_sleepers = 0,
      workers = [\<lparr>pc = InBody, todo = [1::nat]\<rparr>, \<lparr>pc = AtAcquire, todo = [2]\<rparr>,
                 \<lparr>pc = AtAcquire, todo = [3]\<rparr>],
      waiters = [], drained = [], drain_done = False\<rparr> \<and>
   waiting \<lparr>Errors = \<lparr>ch_cap = 0, ch_buf = [], ch_closed = False\<rparr>,
      semaphore = \<lparr>ch_cap = 1, ch_buf = [True], ch_closed = False\<rparr>, wg = 3, wg_sleepers = 0,
      workers = [\<lparr>pc = InBody, todo = [1::nat]\<rparr>, \<lparr>pc = AtAcquire, todo = [2]\<rparr>,
                 \<lparr>pc = AtAcquire, todo = [3]\<rparr>],
      waiters = [], drained = [], drain_done = False\<rparr> = 2 \<and>
   running \<lparr>Errors = \<lparr>ch_cap = 0, ch_buf = [], ch_closed = False\<rparr>,
      semaphore = \<lparr>ch_cap = 1, ch_buf = [True], ch_closed = False\<rparr>, wg = 3, wg_sleepers = 0,
      workers = [\<lparr>pc = InBody, todo = [1::nat]\<rparr>, \<lparr>pc = AtAcquire, todo = [2]\<rparr>,
                 \<lparr>pc = AtAcquire, todo = [3]\<rparr>],
      waiters = [], drained = [], drain_done = False\<rparr> = 1"
proof -
  let ?st = "\<lparr>Errors = \<lparr>ch_cap = 0, ch_buf = [], ch_closed = False\<rparr>,
      semaphore = \<lparr>ch_cap = 1, ch_buf = [True], ch_closed = False\<rparr>, wg = 1, wg_sleepers = 0,
      workers = [\<lparr>pc = InBody, todo = [1::nat]\<rparr>], waiters = [], drained = [],
      drain_done = False\<rparr>"
  let ?st2 = "\<lparr>Errors = \<lparr>ch_cap = 0, ch_buf = [], ch_closed = False\<rparr>,
      semaphore = \<lparr>ch_cap = 1, ch_buf = [True], ch_closed = False\<rparr>, wg = 3, wg_sleepers = 0,
      workers = [\<lparr>pc = InBody, todo = [1::nat]\<rparr>, \<lparr>pc = AtAcquire, todo = [2]\<rparr>,
                 \<lparr>pc = AtAcquire, todo = [3]\<rparr>],
      waiters = [], drained = [], drain_done = False\<rparr>"
  have run: "play 1 [CallRun [1::nat], Acquire 0] = Ok ?st" by code_simp
  have more: "exec (map CallRun [[2], [3]]) ?st = Ok ?st2" by code_simp
  have before: "waiting ?st = 0" "running ?st = 1"
    by (simp_all add: waiting_def running_def holds_permit_def)
  have free: "CallWait \<notin> set [CallRun [1::nat], Acquire 0]" by simp
  have ok: "[[2::nat], [3]] = [] \<or> wg ?st \<noteq> 0 \<or> wg_sleepers ?st = 0" by simp
  from run_never_blocks[OF run, of "[[2], [3]]"] ok obtain s' where
    s': "exec (map CallRun [[2], [3]]) ?st = Ok s'"
      "waiting s' = waiting ?st + length [[2::nat], [3]]" "running s' = running ?st"
    by blast
  from s'(1) have "Ok s' = Ok ?st2" unfolding more by (rule sym)
  then have "s' = ?st2" by (simp only: outcome.inject)
  with s'(2,3) before have "waiting ?st2 = 2 \<and> running ?st2 = 1" by simp
  with run more show ?thesis by blast
qed

text \<open>The claim as written fails: when the decrement of the last unit has made the
  counter zero while the waiter sleeps, a further call of \<^verbatim>\<open>Run\<close> does not return
  to its caller but panics in \<^verbatim>\<open>p.wg.Add(1)\<close>.\<close>

theorem run_after_wait_panics_counterexample:
  "play 1 [CallRun ([] :: nat list), CallWait, WgWait 0, Acquire 0, Return 0, Release 0, Done 0,
      CallRun []] =
   Panics WaitGroupMisuse"
  by code_simp

text \<open>
  C6, as amended. The package checks and reports nothing, and of the misuses only
  capacity 0 blocks for good. A negative capacity makes \<^verbatim>\<open>New\<close> panic. With capacity
  0 every worker stays before line 52 and no permit-acquire completes. When the counter
  is zero and two waiters stand at line 42 (\<^verbatim>\<open>Wait\<close> was called twice), the second
  of them to reach line 43 panics: close of closed channel. After \<^verbatim>\<open>p.semaphore\<close> has
  been closed, a further \<^verbatim>\<open>Run\<close> ends in a panic: of its goroutine at line 52, send
  on closed channel, or of \<^verbatim>\<open>p.wg.Add\<close> itself when the counter is zero and a waiter
  sleeps. And units that send no value, or several, block nothing: on a Pool of capacity
  at least 1 used as documented, whatever the units send, until the drain is signalled
  closed some goroutine or the consumer can take a step, and no step panics (a further
  \<^verbatim>\<open>Run\<close> apart, which is no documented use).
\<close>

theorem misuse_outcomes:
  "(N < 0 \<longrightarrow> New N = Panics MakeChanSize) \<and>
   (play 0 as0 = Ok s0 \<longrightarrow>
      all_waiting s0 \<and> (\<forall>i j s'. step (Acquire i) s0 \<noteq> Ok s' \<and> step (Handoff i j) s0 \<noteq> Ok s')) \<and>
   (wg s1 = 0 \<and> waiter_at s1 j AtWgWait \<and> waiter_at s1 k AtWgWait \<and> j \<noteq> k \<longrightarrow>
      exec [WgWait j, WgWait k, CloseErrors j, CloseErrors k] s1 = Panics CloseOfClosed) \<and>
   (ch_closed (semaphore s2) \<longrightarrow>
      exec [CallRun fn, Acquire (length (workers s2))] s2 =
      Panics (if wg s2 = 0 \<and> wg_sleepers s2 \<noteq> 0 then WaitGroupMisuse else SendOnClosed)) \<and>
   (play M as3 = Ok s3 \<and> 1 \<le> M \<and> disciplined as3 \<and> CallWait \<in> set as3 \<and>
      \<not> drain_done s3 \<longrightarrow>
      (\<exists>a s'. \<not> is_call a \<and> step a s3 = Ok s') \<and>
      (\<forall>a p. \<not> is_run a \<longrightarrow> step a s3 \<noteq> Panics p))"
proof -
  have 1: "New N = Panics MakeChanSize" if "N < 0"
    using that by (simp add: New_def make_chan_def)
  have 2: "all_waiting s0 \<and>
      (\<forall>i j s'. step (Acquire i) s0 \<noteq> Ok s' \<and> step (Handoff i j) s0 \<noteq> Ok s')"
    if run: "play 0 as0 = Ok s0"
    using all_waiting_play[OF run] never_admitted[OF run] by blast
  have 3: "(\<exists>a s'. \<not> is_call a \<and> step a s3 = Ok s') \<and>
           (\<forall>a p. \<not> is_run a \<longrightarrow> step a s3 \<noteq> Panics p)"
    if run: "play M as3 = Ok s3" and cap: "1 \<le> M" and use: "disciplined as3"
      and waited: "CallWait \<in> set as3" and drain: "\<not> drain_done s3"
  proof -
    have inv: "pool_inv s3" using run by (rule pool_inv_play)
    have "0 < ch_cap (semaphore s3)" using sem_cap_play[OF run] cap by simp
    from progress[OF inv waited_waiters[OF run waited] this drain]
      no_panic[OF inv use_inv_play[OF run use]]
    show ?thesis by blast
  qed
  from 1 2 3 second_close_panics[of s1 j k] run_after_close_panics[of s2 fn]
  show ?thesis by blast
qed

theorem misuse_outcomes_witness:
  "(-1::int) < 0 \<and>
   (New (-1) :: nat state outcome) = Panics MakeChanSize \<and>
   play 0 [CallRun [1::nat], CallWait] =
   Ok \<lparr>Errors = \<lparr>ch_cap = 0, ch_buf = [], ch_closed = False\<rparr>,
      semaphore = \<lparr>ch_cap = 0, ch_buf = [], ch_closed = False\<rparr>, wg = 1, wg_sleepers = 0,
      workers = [\<lparr>pc = AtAcquire, todo = [1::nat]\<rparr>], waiters = [AtWgWait],
      drained = [], drain_done = False\<rparr> \<and>
   all_waiting \<lparr>Errors = \<lparr>ch_cap = 0, ch_buf = [], ch_closed = False\<rparr>,
      semaphore = \<lparr>ch_cap = 0, ch_buf = [], ch_closed = False\<rparr>, wg = 1, wg_sleepers = 0,
      workers = [\<lparr>pc = AtAcquire, todo = [1::nat]\<rparr>], waiters = [AtWgWait],
      drained = [], drain_done = False\<rparr> \<and>
   wg \<lparr>Errors = \<lparr>ch_cap = 0, ch_buf = [], ch_closed = False\<rparr>,
      semaphore = \<lparr>ch_cap = 1, ch_buf = [], ch_closed = False\<rparr>, wg = 0, wg_sleepers = 0,
      workers = ([] :: nat worker list), waiters = [AtWgWait, AtWgWait],
      drained = [], drain_done = False\<rparr> = 0 \<and>
   waiter_at \<lparr>Errors = \<lparr>ch_cap = 0, ch_buf = [], ch_closed = False\<rparr>,
      semaphore = \<lparr>ch_cap = 1, ch_buf = [], ch_closed = False\<rparr>, wg = 0, wg_sleepers = 0,
      workers = ([] :: nat worker list), waiters = [AtWgWait, AtWgWait],
      drained = [], drain_done = False\<rparr> 0 AtWgWait \<and>
   waiter_at \<lparr>Errors = \<lparr>ch_cap = 0, ch_buf = [], ch_closed = False\<rparr>,
      semaphore = \<lparr>ch_cap = 1, ch_buf = [], ch_closed = False\<rparr>, wg = 0, wg_sleepers = 0,
      workers = ([] :: nat worker list), waiters = [AtWgWait, AtWgWait],
      drained = [], drain_done = False\<rparr> 1 AtWgWait \<and>
   (0::nat) \<noteq> 1 \<and>
   exec [WgWait 0, WgWait 1, CloseErrors 0, CloseErrors 1]
     \<lparr>Errors = \<lparr>ch_cap = 0, ch_buf = [], ch_closed = False\<rparr>,
      semaphore = \<lparr>ch_cap = 1, ch_buf = [], ch_closed = False\<rparr>, wg = 0, wg_sleepers = 0,
      workers = ([] :: nat worker list), waiters = [AtWgWait, AtWgWait],
      drained = [], drain_done = False\<rparr> = Panics CloseOfClosed \<and>
   ch_closed (semaphore \<lparr>Errors = \<lparr>ch_cap = 0, ch_buf = [], ch_closed = True\<rparr>,
      semaphore = \<lparr>ch_cap = 1, ch_buf = [], ch_closed = True\<rparr>, wg = 0, wg_sleepers = 0,
      workers = ([] :: nat worker list), waiters = [WaiterExited],
      drained = [], drain_done = False\<rparr>) \<and>
   exec [CallRun [3], Acquire (length (workers \<lparr>Errors = \<lparr>ch_cap = 0, ch_buf = [], ch_closed = True\<rparr>,
      semaphore = \<lparr>ch_cap = 1, ch_buf = [], ch_closed = True\<rparr>, wg = 0, wg_sleepers = 0,
      workers = ([] :: nat worker list), waiters = [WaiterExited],
      drained = [], drain_done = False\<rparr>))]
     \<lparr>Errors = \<lparr>ch_cap = 0, ch_buf = [], ch_closed = True\<rparr>,
      semaphore = \<lparr>ch_cap = 1, ch_buf = [], ch_closed = True\<rparr>, wg = 0, wg_sleepers = 0,
      workers = ([] :: nat worker list), waiters = [WaiterExited],
      drained = [], drain_done = False\<rparr> = Panics SendOnClosed \<and>
   play 1 [CallRun [], CallRun [1::nat, 2], CallWait, Acquire 1, Deliver 1] =
   Ok \<lparr>Errors = \<lparr>ch_cap = 0, ch_buf = [], ch_closed = False\<rparr>,
      semaphore = \<lparr>ch_cap = 1, ch_buf = [True], ch_closed = False\<rparr>, wg = 2, wg_sleepers = 0,
      workers = [\<lparr>pc = AtAcquire, todo = []\<rparr>, \<lparr>pc = InBody, todo = [2::nat]\<rparr>],
      waiters = [AtWgWait], drained = [1], drain_done = False\<rparr> \<and>
   (1::int) \<le> 1 \<and>
   disciplined [CallRun [], CallRun [1::nat, 2], CallWait, Acquire 1, Deliver 1] \<and>
   CallWait \<in> set [CallRun [], CallRun [1::nat, 2], CallWait, Acquire 1, Deliver 1] \<and>
   \<not> drain_done \<lparr>Errors = \<lparr>ch_cap = 0, ch_buf = [], ch_closed = False\<rparr>,
      semaphore = \<lparr>ch_cap = 1, ch_buf = [True], ch_closed = False\<rparr>, wg = 2, wg_sleepers = 0,
      workers = [\<lparr>pc = AtAcquire, todo = []\<rparr>, \<lparr>pc = InBody, todo = [2::nat]\<rparr>],
      waiters = [AtWgWait], drained = [1], drain_done = False\<rparr> \<and>
   step (Deliver 1)
     \<lparr>Errors = \<lparr>ch_cap = 0, ch_buf = [], ch_closed = False\<rparr>,
      semaphore = \<lparr>ch_cap = 1, ch_buf = [True], ch_closed = False\<rparr>, wg = 2, wg_sleepers = 0,
      workers = [\<lparr>pc = AtAcquire, todo = []\<rparr>, \<lparr>pc = InBody, todo = [2::nat]\<rparr>],
      waiters = [AtWgWait], drained = [1], drain_done = False\<rparr> \<noteq> Blocks"
proof -
  let ?tr0 = "[CallRun [1::nat], CallWait]"
  let ?st0 = "\<lparr>Errors = \<lparr>ch_cap = 0, ch_buf = [], ch_closed = False\<rparr>,
      semaphore = \<lparr>ch_cap = 0, ch_buf = [], ch_closed = False\<rparr>, wg = 1, wg_sleepers = 0,
      workers = [\<lparr>pc = AtAcquire, todo = [1::nat]\<rparr>], waiters = [AtWgWait],
      drained = [], drain_done = False\<rparr>"
  let ?st1 = "\<lparr>Errors = \<lparr>ch_cap = 0, ch_buf = [], ch_closed = False\<rparr>,
      semaphore = \<lparr>ch_cap = 1, ch_buf = [], ch_closed = False\<rparr>, wg = 0, wg_sleepers = 0,
      workers = ([] :: nat worker list), waiters = [AtWgWait, AtWgWait],
      drained = [], drain_done = False\<rparr>"
  let ?st2 = "\<lparr>Errors = \<lparr>ch_cap = 0, ch_buf = [], ch_closed = True\<rparr>,
      semaphore = \<lparr>ch_cap = 1, ch_buf = [], ch_closed = True\<rparr>, wg = 0, wg_sleepers = 0,
      workers = ([] :: nat worker list), waiters = [WaiterExited],
      drained = [], drain_done = False\<rparr>"
  let ?tr3 = "[CallRun [], CallRun [1::nat, 2], CallWait, Acquire 1, Deliver 1]"
  let ?st3 = "\<lparr>Errors = \<lparr>ch_cap = 0, ch_buf = [], ch_closed = False\<rparr>,
      semaphore = \<lparr>ch_cap = 1, ch_buf = [True], ch_closed = False\<rparr>, wg = 2, wg_sleepers = 0,
      workers = [\<lparr>pc = AtAcquire, todo = []\<rparr>, \<lparr>pc = InBody, todo = [2::nat]\<rparr>],
      waiters = [AtWgWait], drained = [1], drain_done = False\<rparr>"
  have neg: "(-1::int) < 0" by simp
  have run0: "play 0 ?tr0 = Ok ?st0" by code_simp
  have two: "wg ?st1 = 0" "waiter_at ?st1 0 AtWgWait" "waiter_at ?st1 1 AtWgWait" "(0::nat) \<noteq> 1"
    by (simp_all add: waiter_at_def)
  have closed: "ch_closed (semaphore ?st2)" by simp
  have run3: "play 1 ?tr3 = Ok ?st3" by code_simp
  have use3: "(1::int) \<le> 1" "disciplined ?tr3" "CallWait \<in> set ?tr3" "\<not> drain_done ?st3"
    by simp_all
  have deliver: "step (Deliver 1) ?st3 \<noteq> Blocks" by code_simp
  have send: "(if wg ?st2 = 0 \<and> wg_sleepers ?st2 \<noteq> 0 then WaitGroupMisuse else SendOnClosed) =
      SendOnClosed" by simp
  from misuse_outcomes[of "-1" ?tr0 ?st0 ?st1 0 1 ?st2 "[3]" 1 ?tr3 ?st3, unfolded send]
    neg run0 two closed
  have "(New (-1) :: nat state outcome) = Panics MakeChanSize \<and> all_waiting ?st0 \<and>
        exec [WgWait 0, WgWait 1, CloseErrors 0, CloseErrors 1] ?st1 = Panics CloseOfClosed \<and>
        exec [CallRun [3], Acquire (length (workers ?st2))] ?st2 = Panics SendOnClosed"
    by blast
  with neg run0 two closed run3 use3 deliver show ?thesis by blast
qed

text \<open>The claim as written fails: two calls of \<^verbatim>\<open>Wait\<close> on a fresh Pool end in a
  panic of the runtime, not in blocked goroutines.\<close>

theorem double_wait_counterexample:
  "play 1 [CallWait, CallWait, WgWait 0, WgWait 1, CloseErrors 0, CloseErrors 1 :: nat action] =
   Panics CloseOfClosed"
  by code_simp

text \<open>
  C7, as amended. \<^verbatim>\<open>New\<close> validates nothing. With capacity 0 it returns a Pool on
  which admission is blocked for good: in every state any interleaving reaches, every
  worker still stands before line 52, no unit holds a permit, nothing has been drained,
  and no permit-acquire can complete; under the documented use the send of line 52 is
  blocked (it does not panic either). With a negative capacity \<^verbatim>\<open>New\<close> returns no
  Pool: \<^verbatim>\<open>make\<close> panics.
\<close>

theorem nonpositive_capacity:
  "(N < 0 \<longrightarrow> New N = Panics MakeChanSize) \<and>
   (play 0 as = Ok s \<longrightarrow>
      all_waiting s \<and> running s = 0 \<and> drained s = [] \<and>
      (\<forall>i j s'. step (Acquire i) s \<noteq> Ok s' \<and> step (Handoff i j) s \<noteq> Ok s') \<and>
      (disciplined as \<longrightarrow> (\<forall>i < length (workers s). step (Acquire i) s = Blocks)))"
proof -
  have 1: "New N = Panics MakeChanSize" if "N < 0"
    using that by (simp add: New_def make_chan_def)
  have 2: "all_waiting s \<and> running s = 0 \<and> drained s = [] \<and>
      (\<forall>i j s'. step (Acquire i) s \<noteq> Ok s' \<and> step (Handoff i j) s \<noteq> Ok s') \<and>
      (disciplined as \<longrightarrow> (\<forall>i < length (workers s). step (Acquire i) s = Blocks))"
    if run: "play 0 as = Ok s"
    using all_waiting_play[OF run] never_admitted[OF run] blocked_at_acquire[OF run]
      running_all_waiting[of s]
    by blast
  from 1 2 show ?thesis by blast
qed

theorem nonpositive_capacity_witness:
  "(-1::int) < 0 \<and>
   (New (-1) :: nat state outcome) = Panics MakeChanSize \<and>
   play 0 [CallRun [1::nat], CallRun [2], CallWait] =
   Ok \<lparr>Errors = \<lparr>ch_cap = 0, ch_buf = [], ch_closed = False\<rparr>,
      semaphore = \<lparr>ch_cap = 0, ch_buf = [], ch_closed = False\<rparr>, wg = 2, wg_sleepers = 0,
      workers = [\<lparr>pc = AtAcquire, todo = [1::nat]\<rparr>, \<lparr>pc = AtAcquire, todo = [2]\<rparr>],
      waiters = [AtWgWait], drained = [], drain_done = False\<rparr> \<and>
   disciplined [CallRun [1::nat], CallRun [2], CallWait] \<and>
   all_waiting \<lparr>Errors = \<lparr>ch_cap = 0, ch_buf = [], ch_closed = False\<rparr>,
      semaphore = \<lparr>ch_cap = 0, ch_buf = [], ch_closed = False\<rparr>, wg = 2, wg_sleepers = 0,
      workers = [\<lparr>pc = AtAcquire, todo = [1::nat]\<rparr>, \<lparr>pc = AtAcquire, todo = [2]\<rparr>],
      waiters = [AtWgWait], drained = [], drain_done = False\<rparr> \<and>
   step (Acquire 1)
     \<lparr>Errors = \<lparr>ch_cap = 0, ch_buf = [], ch_closed = False\<rparr>,
      semaphore = \<lparr>ch_cap = 0, ch_buf = [], ch_closed = False\<rparr>, wg = 2, wg_sleepers = 0,
      workers = [\<lparr>pc = AtAcquire, todo = [1::nat]\<rparr>, \<lparr>pc = AtAcquire, todo = [2]\<rparr>],
      waiters = [AtWgWait], drained = [], drain_done = False\<rparr> = Blocks"
proof -
  let ?tr = "[CallRun [1::nat], CallRun [2], CallWait]"
  let ?st = "\<lparr>Errors = \<lparr>ch_cap = 0, ch_buf = [], ch_closed = False\<rparr>,
      semaphore = \<lparr>ch_cap = 0, ch_buf = [], ch_closed = False\<rparr>, wg = 2, wg_sleepers = 0,
      workers = [\<lparr>pc = AtAcquire, todo = [1::nat]\<rparr>, \<lparr>pc = AtAcquire, todo = [2]\<rparr>],
      waiters = [AtWgWait], drained = [], drain_done = False\<rparr>"
  have neg: "(-1::int) < 0" by simp
  have run: "play 0 ?tr = Ok ?st" by code_simp
  have use: "disciplined ?tr" by simp
  have i: "(1::nat) < length (workers ?st)" by simp
  from nonpositive_capacity[of "-1" ?tr ?st] neg run use i
  have "(New (-1) :: nat state outcome) = Panics MakeChanSize \<and> all_waiting ?st \<and>
        step (Acquire 1) ?st = Blocks"
    by blast
  with neg run use show ?thesis by blast
qed

text \<open>The claim as written fails for a negative capacity: construction does not
  succeed.\<close>

theorem negative_capacity_counterexample:
  "(New (-1) :: nat state outcome) = Panics MakeChanSize"
  by code_simp

text \<open>
  C8, as amended. A unit that returns without sending a result blocks nothing: the deferred
  function of its goroutine still releases the permit and calls \<^verbatim>\<open>p.wg.Done()\<close>.
  On a Pool of capacity \<open>N \<ge> 1\<close> used as documented (one \<^verbatim>\<open>Wait\<close>, after the last
  \<^verbatim>\<open>Run\<close>), with such a unit among the submitted ones: the counter is the number of
  submissions minus the executed \<^verbatim>\<open>Done\<close> statements; until the drain is signalled
  closed some goroutine or the consumer can take a step, no step of a goroutine or of the
  consumer panics, and the number of steps is bounded; and when the drain is signalled
  closed the counter is zero and the drain has yielded exactly the values that the units
  send, none for the silent unit.
\<close>

theorem silent_unit_still_closes:
  assumes "play N as = Ok s" and "1 \<le> N" and "disciplined as" and "CallWait \<in> set as"
    and "CallRun [] \<in> set as"
  shows "(drain_done s \<longrightarrow> wg s = 0 \<and> mset (drained s) = mset (submitted as)) \<and>
         (\<not> drain_done s \<longrightarrow> (\<exists>a s'. \<not> is_call a \<and> step a s = Ok s')) \<and>
         (\<forall>a p. \<not> is_run a \<longrightarrow> step a s \<noteq> Panics p) \<and>
         wg s + dones as = submissions as \<and>
         internal_steps as \<le> budget as"
proof -
  have inv: "pool_inv s" using assms(1) by (rule pool_inv_play)
  have use: "use_inv s" using assms(1,3) by (rule use_inv_play)
  have cons: "mset (drained s) + mset (pending s) = mset (submitted as)"
    using assms(1) by (rule conservation)
  have 1: "wg s = 0 \<and> mset (drained s) = mset (submitted as)" if "drain_done s"
  proof -
    from inv that have "ch_closed (Errors s)" by (auto simp add: pool_inv_def close_inv_def)
    from closed_all_done(1,3)[OF inv use this] cons show ?thesis by simp
  qed
  have cap: "0 < ch_cap (semaphore s)" using sem_cap_play[OF assms(1)] assms(2) by simp
  have 2: "\<exists>a s'. \<not> is_call a \<and> step a s = Ok s'" if "\<not> drain_done s"
    using inv waited_waiters[OF assms(1,4)] cap that by (rule progress)
  have 3: "\<forall>a p. \<not> is_run a \<longrightarrow> step a s \<noteq> Panics p" using no_panic[OF inv use] by blast
  have 4: "wg s + dones as = submissions as" using assms(1) by (rule wg_accounting)
  have 5: "internal_steps as \<le> budget as" using bounded_work[OF assms(1)] by simp
  from 1 2 3 4 5 show ?thesis by blast
qed

theorem silent_unit_still_closes_witness:
  "play 1 [CallRun [], CallRun [5::nat], CallWait, Acquire 0, Return 0, Release 0, Done 0,
      Acquire 1, Deliver 1, Return 1, Release 1, Done 1, WgWait 0, CloseErrors 0, Recv] =
   Ok \<lparr>Errors = \<lparr>ch_cap = 0, ch_buf = [], ch_closed = True\<rparr>,
      semaphore = \<lparr>ch_cap = 1, ch_buf = [], ch_closed = False\<rparr>, wg = 0, wg_sleepers = 0,
      workers = [\<lparr>pc = Exited, todo = []\<rparr>, \<lparr>pc = Exited, todo = []\<rparr>],
      waiters = [AtCloseSem], drained = [5::nat], drain_done = True\<rparr> \<and>
   (1::int) \<le> 1 \<and>
   disciplined [CallRun [], CallRun [5::nat], CallWait, Acquire 0, Return 0, Release 0, Done 0,
      Acquire 1, Deliver 1, Return 1, Release 1, Done 1, WgWait 0, CloseErrors 0, Recv] \<and>
   CallWait \<in> set [CallRun [], CallRun [5::nat], CallWait, Acquire 0, Return 0, Release 0, Done 0,
      Acquire 1, Deliver 1, Return 1, Release 1, Done 1, WgWait 0, CloseErrors 0, Recv] \<and>
   CallRun [] \<in> set [CallRun [], CallRun [5::nat], CallWait, Acquire 0, Return 0, Release 0, Done 0,
      Acquire 1, Deliver 1, Return 1, Release 1, Done 1, WgWait 0, CloseErrors 0, Recv] \<and>
   drain_done \<lparr>Errors = \<lparr>ch_cap = 0, ch_buf = [], ch_closed = True\<rparr>,
      semaphore = \<lparr>ch_cap = 1, ch_buf = [], ch_closed = False\<rparr>, wg = 0, wg_sleepers = 0,
      workers = [\<lparr>pc = Exited, todo = []\<rparr>, \<lparr>pc = Exited, todo = []\<rparr>],
      waiters = [AtCloseSem], drained = [5::nat], drain_done = True\<rparr> \<and>
   wg \<lparr>Errors = \<lparr>ch_cap = 0, ch_buf = [], ch_closed = True\<rparr>,
      semaphore = \<lparr>ch_cap = 1, ch_buf = [], ch_closed = False\<rparr>, wg = 0, wg_sleepers = 0,
      workers = [\<lparr>pc = Exited, todo = []\<rparr>, \<lparr>pc = Exited, todo = []\<rparr>],
      waiters = [AtCloseSem], drained = [5::nat], drain_done = True\<rparr> = 0 \<and>
   mset (drained \<lparr>Errors = \<lparr>ch_cap = 0, ch_buf = [], ch_closed = True\<rparr>,
      semaphore = \<lparr>ch_cap = 1, ch_buf = [], ch_closed = False\<rparr>, wg = 0, wg_sleepers = 0,
      workers = [\<lparr>pc = Exited, todo = []\<rparr>, \<lparr>pc = Exited, todo = []\<rparr>],
      waiters = [AtCloseSem], drained = [5::nat], drain_done = True\<rparr>) = mset (submitted [CallRun [], CallRun [5::nat], CallWait, Acquire 0, Return 0, Release 0, Done 0,
      Acquire 1, Deliver 1, Return 1, Release 1, Done 1, WgWait 0, CloseErrors 0, Recv])"
proof -
  let ?tr = "[CallRun [], CallRun [5::nat], CallWait, Acquire 0, Return 0, Release 0, Done 0,
      Acquire 1, Deliver 1, Return 1, Release 1, Done 1, WgWait 0, CloseErrors 0, Recv]"
  let ?st = "\<lparr>Errors = \<lparr>ch_cap = 0, ch_buf = [], ch_closed = True\<rparr>,
      semaphore = \<lparr>ch_cap = 1, ch_buf = [], ch_closed = False\<rparr>, wg = 0, wg_sleepers = 0,
      workers = [\<lparr>pc = Exited, todo = []\<rparr>, \<lparr>pc = Exited, todo = []\<rparr>],
      waiters = [AtCloseSem], drained = [5::nat], drain_done = True\<rparr>"
  have run: "play 1 ?tr = Ok ?st" by code_simp
  have cap: "(1::int) \<le> 1" by simp
  have use: "disciplined ?tr" by simp
  have waited: "CallWait \<in> set ?tr" by simp
  have silent: "CallRun [] \<in> set ?tr" by simp
  have closed: "drain_done ?st" by simp
  from silent_unit_still_closes[OF run cap use waited silent] closed
  have "wg ?st = 0 \<and> mset (drained ?st) = mset (submitted ?tr)" by blast
  with run cap use waited silent closed show ?thesis by blast
qed

text \<open>The claim as written fails: with capacity 1 and a single unit that sends nothing,
  this schedule lets the waiter see the counter at zero, close both channels and end the
  consumer's loop.\<close>

theorem silent_unit_counterexample:
  "play 1 [CallRun ([]::nat list), CallWait, Acquire 0, Return 0, Release 0, Done 0, WgWait 0,
      CloseErrors 0, CloseSem 0, Recv] =
   Ok \<lparr>Errors = \<lparr>ch_cap = 0, ch_buf = [], ch_closed = True\<rparr>,
      semaphore = \<lparr>ch_cap = 1, ch_buf = [], ch_closed = True\<rparr>, wg = 0, wg_sleepers = 0,
      workers = [\<lparr>pc = Exited, todo = []\<rparr>], waiters = [WaiterExited],
      drained = [], drain_done = True\<rparr>"
  by code_simp

text \<open>
  C9. In every program, two Pools returned by two calls of \<^verbatim>\<open>New\<close> are distinct
  objects, and whatever is done on one of them (calls of \<^verbatim>\<open>Run\<close> and \<^verbatim>\<open>Wait\<close>,
  statements of its goroutines, receives from its \<^verbatim>\<open>Errors\<close>), as long as the program
  does not panic, the other one is unchanged: its semaphore, its WaitGroup, its
  \<^verbatim>\<open>Errors\<close> channel, its goroutines and what has been drained from it.
\<close>

theorem pools_independent:
  assumes "run cs start = Ok g" and "i < length (made g)" and "j < length (made g)"
    and "i \<noteq> j" and "run (map (On (made g ! i)) as) g = Ok g'"
  shows "made g ! i \<noteq> made g ! j \<and> load (made g ! j) (heap g) \<noteq> None \<and>
         load (made g ! j) (heap g') = load (made g ! j) (heap g)"
proof -
  have pinv: "prog_inv g" using assms(1) prog_inv_start by (rule prog_inv_run)
  then have inv: "heap_inv (heap g)" and made: "made g = [0..<length (pools (heap g))]"
    by (simp_all add: prog_inv_def)
  from made assms(2,3) have ij: "made g ! i = i" "made g ! j = j"
    "j < length (pools (heap g))"
    by (metis length_upt minus_nat.diff_0 nth_upt plus_nat.add_0)+
  from run_on_pool[OF assms(5) pinv] ij assms(4)
  have "load (made g ! j) (heap g') = load (made g ! j) (heap g)" by simp
  with assms(4) ij(1,2) load_allocated[OF inv ij(3)] show ?thesis by simp
qed

theorem pools_independent_witness:
  "run [MkPool 1, MkPool 2, On 0 (CallRun [5::nat]), On 1 (CallRun [6]), On 0 (Acquire 0)] start =
   Ok \<lparr>heap = \<lparr>error_chans = [\<lparr>ch_cap = 0, ch_buf = [], ch_closed = False\<rparr>,
                            \<lparr>ch_cap = 0, ch_buf = [], ch_closed = False\<rparr>],
             bool_chans = [\<lparr>ch_cap = 1, ch_buf = [True], ch_closed = False\<rparr>,
                           \<lparr>ch_cap = 2, ch_buf = [], ch_closed = False\<rparr>],
             wait_groups = [(1, 0), (1, 0)],
             pools = [\<lparr>Errors_at = 0, semaphore_at = 0, wg_at = 0\<rparr>,
                      \<lparr>Errors_at = 1, semaphore_at = 1, wg_at = 1\<rparr>],
             gangs = [\<lparr>g_workers = [\<lparr>pc = InBody, todo = [5::nat]\<rparr>], g_waiters = [],
                        g_drained = [], g_drain_done = False\<rparr>,
                      \<lparr>g_workers = [\<lparr>pc = AtAcquire, todo = [6]\<rparr>], g_waiters = [],
                        g_drained = [], g_drain_done = False\<rparr>]\<rparr>,
      made = [0, 1]\<rparr> \<and>
   (0::nat) < length (made \<lparr>heap = \<lparr>error_chans = [\<lparr>ch_cap = 0, ch_buf = [], ch_closed = False\<rparr>,
                            \<lparr>ch_cap = 0, ch_buf = [], ch_closed = False\<rparr>],
             bool_chans = [\<lparr>ch_cap = 1, ch_buf = [True], ch_closed = False\<rparr>,
                           \<lparr>ch_cap = 2, ch_buf = [], ch_closed = False\<rparr>],
             wait_groups = [(1, 0), (1, 0)],
             pools = [\<lparr>Errors_at = 0, semaphore_at = 0, wg_at = 0\<rparr>,
                      \<lparr>Errors_at = 1, semaphore_at = 1, wg_at = 1\<rparr>],
             gangs = [\<lparr>g_workers = [\<lparr>pc = InBody, todo = [5::nat]\<rparr>], g_waiters = [],
                        g_drained = [], g_drain_done = False\<rparr>,
                      \<lparr>g_workers = [\<lparr>pc = AtAcquire, todo = [6]\<rparr>], g_waiters = [],
                        g_drained = [], g_drain_done = False\<rparr>]\<rparr>,
      made = [0, 1]\<rparr>) \<and>
   (1::nat) < length (made \<lparr>heap = \<lparr>error_chans = [\<lparr>ch_cap = 0, ch_buf = [], ch_closed = False\<rparr>,
                            \<lparr>ch_cap = 0, ch_buf = [], ch_closed = False\<rparr>],
             bool_chans = [\<lparr>ch_cap = 1, ch_buf = [True], ch_closed = False\<rparr>,
                           \<lparr>ch_cap = 2, ch_buf = [], ch_closed = False\<rparr>],
             wait_groups = [(1, 0), (1, 0)],
             pools = [\<lparr>Errors_at = 0, semaphore_at = 0, wg_at = 0\<rparr>,
                      \<lparr>Errors_at = 1, semaphore_at = 1, wg_at = 1\<rparr>],
             gangs = [\<lparr>g_workers = [\<lparr>pc = InBody, todo = [5::nat]\<rparr>], g_waiters = [],
                        g_drained = [], g_drain_done = False\<rparr>,
                      \<lparr>g_workers = [\<lparr>pc = AtAcquire, todo = [6]\<rparr>], g_waiters = [],
                        g_drained = [], g_drain_done = False\<rparr>]\<rparr>,
      made = [0, 1]\<rparr>) \<and>
   (0::nat) \<noteq> 1 \<and>
   run (map (On (made \<lparr>heap = \<lparr>error_chans = [\<lparr>ch_cap = 0, ch_buf = [], ch_closed = False\<rparr>,
                            \<lparr>ch_cap = 0, ch_buf = [], ch_closed = False\<rparr>],
             bool_chans = [\<lparr>ch_cap = 1, ch_buf = [True], ch_closed = False\<rparr>,
                           \<lparr>ch_cap = 2, ch_buf = [], ch_closed = False\<rparr>],
             wait_groups = [(1, 0), (1, 0)],
             pools = [\<lparr>Errors_at = 0, semaphore_at = 0, wg_at = 0\<rparr>,
                      \<lparr>Errors_at = 1, semaphore_at = 1, wg_at = 1\<rparr>],
             gangs = [\<lparr>g_workers = [\<lparr>pc = InBody, todo = [5::nat]\<rparr>], g_waiters = [],
                        g_drained = [], g_drain_done = False\<rparr>,
                      \<lparr>g_workers = [\<lparr>pc = AtAcquire, todo = [6]\<rparr>], g_waiters = [],
                        g_drained = [], g_drain_done = False\<rparr>]\<rparr>,
      made = [0, 1]\<rparr> ! 0)) [Deliver 0, Return 0])
     \<lparr>heap = \<lparr>error_chans = [\<lparr>ch_cap = 0, ch_buf = [], ch_closed = False\<rparr>,
                            \<lparr>ch_cap = 0, ch_buf = [], ch_closed = False\<rparr>],
             bool_chans = [\<lparr>ch_cap = 1, ch_buf = [True], ch_closed = False\<rparr>,
                           \<lparr>ch_cap = 2, ch_buf = [], ch_closed = False\<rparr>],
             wait_groups = [(1, 0), (1, 0)],
             pools = [\<lparr>Errors_at = 0, semaphore_at = 0, wg_at = 0\<rparr>,
                      \<lparr>Errors_at = 1, semaphore_at = 1, wg_at = 1\<rparr>],
             gangs = [\<lparr>g_workers = [\<lparr>pc = InBody, todo = [5::nat]\<rparr>], g_waiters = [],
                        g_drained = [], g_drain_done = False\<rparr>,
                      \<lparr>g_workers = [\<lparr>pc = AtAcquire, todo = [6]\<rparr>], g_waiters = [],
                        g_drained = [], g_drain_done = False\<rparr>]\<rparr>,
      made = [0, 1]\<rparr> =
   Ok \<lparr>heap = \<lparr>error_chans = [\<lparr>ch_cap = 0, ch_buf = [], ch_closed = False\<rparr>,
                            \<lparr>ch_cap = 0, ch_buf = [], ch_closed = False\<rparr>],
             bool_chans = [\<lparr>ch_cap = 1, ch_buf = [True], ch_closed = False\<rparr>,
                           \<lparr>ch_cap = 2, ch_buf = [], ch_closed = False\<rparr>],
             wait_groups = [(1, 0), (1, 0)],
             pools = [\<lparr>Errors_at = 0, semaphore_at = 0, wg_at = 0\<rparr>,
                      \<lparr>Errors_at = 1, semaphore_at = 1, wg_at = 1\<rparr>],
             gangs = [\<lparr>g_workers = [\<lparr>pc = AtRelease, todo = []\<rparr>], g_waiters = [],
                        g_drained = [5::nat], g_drain_done = False\<rparr>,
                      \<lparr>g_workers = [\<lparr>pc = AtAcquire, todo = [6]\<rparr>], g_waiters = [],
                        g_drained = [], g_drain_done = False\<rparr>]\<rparr>,
      made = [0, 1]\<rparr> \<and>
   load (made \<lparr>heap = \<lparr>error_chans = [\<lparr>ch_cap = 0, ch_buf = [], ch_closed = False\<rparr>,
                            \<lparr>ch_cap = 0, ch_buf = [], ch_closed = False\<rparr>],
             bool_chans = [\<lparr>ch_cap = 1, ch_buf = [True], ch_closed = False\<rparr>,
                           \<lparr>ch_cap = 2, ch_buf = [], ch_closed = False\<rparr>],
             wait_groups = [(1, 0), (1, 0)],
             pools = [\<lparr>Errors_at = 0, semaphore_at = 0, wg_at = 0\<rparr>,
                      \<lparr>Errors_at = 1, semaphore_at = 1, wg_at = 1\<rparr>],
             gangs = [\<lparr>g_workers = [\<lparr>pc = InBody, todo = [5::nat]\<rparr>], g_waiters = [],
                        g_drained = [], g_drain_done = False\<rparr>,
                      \<lparr>g_workers = [\<lparr>pc = AtAcquire, todo = [6]\<rparr>], g_waiters = [],
                        g_drained = [], g_drain_done = False\<rparr>]\<rparr>,
      made = [0, 1]\<rparr> ! 1)
     (heap \<lparr>heap = \<lparr>error_chans = [\<lparr>ch_cap = 0, ch_buf = [], ch_closed = False\<rparr>,
                            \<lparr>ch_cap = 0, ch_buf = [], ch_closed = False\<rparr>],
             bool_chans = [\<lparr>ch_cap = 1, ch_buf = [True], ch_closed = False\<rparr>,
                           \<lparr>ch_cap = 2, ch_buf = [], ch_closed = False\<rparr>],
             wait_groups = [(1, 0), (1, 0)],
             pools = [\<lparr>Errors_at = 0, semaphore_at = 0, wg_at = 0\<rparr>,
                      \<lparr>Errors_at = 1, semaphore_at = 1, wg_at = 1\<rparr>],
             gangs = [\<lparr>g_workers = [\<lparr>pc = AtRelease, todo = []\<rparr>], g_waiters = [],
                        g_drained = [5::nat], g_drain_done = False\<rparr>,
                      \<lparr>g_workers = [\<lparr>pc = AtAcquire, todo = [6]\<rparr>], g_waiters = [],
                        g_drained = [], g_drain_done = False\<rparr>]\<rparr>,
      made = [0, 1]\<rparr>) =
   Some \<lparr>Errors = \<lparr>ch_cap = 0, ch_buf = [], ch_closed = False\<rparr>,
         semaphore = \<lparr>ch_cap = 2, ch_buf = [], ch_closed = False\<rparr>, wg = 1, wg_sleepers = 0,
         workers = [\<lparr>pc = AtAcquire, todo = [6::nat]\<rparr>], waiters = [], drained = [],
         drain_done = False\<rparr>"
proof -
  let ?g = "\<lparr>heap = \<lparr>error_chans = [\<lparr>ch_cap = 0, ch_buf = [], ch_closed = False\<rparr>,
                            \<lparr>ch_cap = 0, ch_buf = [], ch_closed = False\<rparr>],
             bool_chans = [\<lparr>ch_cap = 1, ch_buf = [True], ch_closed = False\<rparr>,
                           \<lparr>ch_cap = 2, ch_buf = [], ch_closed = False\<rparr>],
             wait_groups = [(1, 0), (1, 0)],
             pools = [\<lparr>Errors_at = 0, semaphore_at = 0, wg_at = 0\<rparr>,
                      \<lparr>Errors_at = 1, semaphore_at = 1, wg_at = 1\<rparr>],
             gangs = [\<lparr>g_workers = [\<lparr>pc = InBody, todo = [5::nat]\<rparr>], g_waiters = [],
                        g_drained = [], g_drain_done = False\<rparr>,
                      \<lparr>g_workers = [\<lparr>pc = AtAcquire, todo = [6]\<rparr>], g_waiters = [],
                        g_drained = [], g_drain_done = False\<rparr>]\<rparr>,
      made = [0, 1]\<rparr>"
  let ?g2 = "\<lparr>heap = \<lparr>error_chans = [\<lparr>ch_cap = 0, ch_buf = [], ch_closed = False\<rparr>,
                            \<lparr>ch_cap = 0, ch_buf = [], ch_closed = False\<rparr>],
             bool_chans = [\<lparr>ch_cap = 1, ch_buf = [True], ch_closed = False\<rparr>,
                           \<lparr>ch_cap = 2, ch_buf = [], ch_closed = False\<rparr>],
             wait_groups = [(1, 0), (1, 0)],
             pools = [\<lparr>Errors_at = 0, semaphore_at = 0, wg_at = 0\<rparr>,
                      \<lparr>Errors_at = 1, semaphore_at = 1, wg_at = 1\<rparr>],
             gangs = [\<lparr>g_workers = [\<lparr>pc = AtRelease, todo = []\<rparr>], g_waiters = [],
                        g_drained = [5::nat], g_drain_done = False\<rparr>,
                      \<lparr>g_workers = [\<lparr>pc = AtAcquire, todo = [6]\<rparr>], g_waiters = [],
                        g_drained = [], g_drain_done = False\<rparr>]\<rparr>,
      made = [0, 1]\<rparr>"
  let ?q = "\<lparr>Errors = \<lparr>ch_cap = 0, ch_buf = [], ch_closed = False\<rparr>,
         semaphore = \<lparr>ch_cap = 2, ch_buf = [], ch_closed = False\<rparr>, wg = 1, wg_sleepers = 0,
         workers = [\<lparr>pc = AtAcquire, todo = [6::nat]\<rparr>], waiters = [], drained = [],
         drain_done = False\<rparr>"
  have before: "run [MkPool 1, MkPool 2, On 0 (CallRun [5::nat]), On 1 (CallRun [6]), On 0 (Acquire 0)] start = Ok ?g"
    by code_simp
  have i: "(0::nat) < length (made ?g)" and j: "(1::nat) < length (made ?g)"
    and ij: "(0::nat) \<noteq> 1" by simp_all
  have on: "run (map (On (made ?g ! 0)) [Deliver 0, Return 0]) ?g = Ok ?g2" by code_simp
  have was: "load (made ?g ! 1) (heap ?g) = Some ?q" by code_simp
  from pools_independent[OF before i j ij on] was
  have "load (made ?g ! 1) (heap ?g2) = Some ?q" by simp
  with before i j ij on show ?thesis by blast
qed

text \<open>
  C10. Whatever the capacity, \<^verbatim>\<open>p.Errors\<close> is made with no buffer and stays so: in
  every state any interleaving reaches its capacity is 0 and its buffer is empty, so a
  send of a unit never completes on its own; the only step in which a unit gets rid of
  a value is the one in which the consumer, whose loop has not ended, receives that value
  from it.
\<close>

theorem errors_unbuffered:
  assumes "play N as = Ok s"
  shows "ch_cap (Errors s) = 0 \<and> ch_buf (Errors s) = [] \<and>
         (\<forall>i s'. step (Push i) s \<noteq> Ok s') \<and>
         (\<forall>a s' i. step a s = Ok s' \<and> i < length (workers s) \<and>
              todo (workers s' ! i) \<noteq> todo (workers s ! i) \<longrightarrow>
            a = Deliver i \<and> \<not> drain_done s \<and>
            (\<exists>v. todo (workers s ! i) = v # todo (workers s' ! i) \<and>
                 drained s' = drained s @ [v]))"
proof -
  from assms have err: "err_inv s" using pool_inv_play by (auto simp: pool_inv_def)
  have "step (Push i) s \<noteq> Ok s'" for i s'
    using err by (auto simp: err_inv_def chan_send_def split: list.splits)
  with err todo_changes_only_by_deliver[OF _ err] show ?thesis
    by (auto simp: err_inv_def)
qed

theorem errors_unbuffered_witness:
  "play 1 [CallRun [1::nat], Acquire 0] =
   Ok \<lparr>Errors = \<lparr>ch_cap = 0, ch_buf = [], ch_closed = False\<rparr>,
      semaphore = \<lparr>ch_cap = 1, ch_buf = [True], ch_closed = False\<rparr>, wg = 1, wg_sleepers = 0,
      workers = [\<lparr>pc = InBody, todo = [1::nat]\<rparr>], waiters = [], drained = [],
      drain_done = False\<rparr> \<and>
   step (Deliver 0)
     \<lparr>Errors = \<lparr>ch_cap = 0, ch_buf = [], ch_closed = False\<rparr>,
      semaphore = \<lparr>ch_cap = 1, ch_buf = [True], ch_closed = False\<rparr>, wg = 1, wg_sleepers = 0,
      workers = [\<lparr>pc = InBody, todo = [1::nat]\<rparr>], waiters = [], drained = [],
      drain_done = False\<rparr> =
   Ok \<lparr>Errors = \<lparr>ch_cap = 0, ch_buf = [], ch_closed = False\<rparr>,
      semaphore = \<lparr>ch_cap = 1, ch_buf = [True], ch_closed = False\<rparr>, wg = 1, wg_sleepers = 0,
      workers = [\<lparr>pc = InBody, todo = []\<rparr>], waiters = [], drained = [1::nat],
      drain_done = False\<rparr> \<and>
   step (Push 0)
     \<lparr>Errors = \<lparr>ch_cap = 0, ch_buf = [], ch_closed = False\<rparr>,
      semaphore = \<lparr>ch_cap = 1, ch_buf = [True], ch_closed = False\<rparr>, wg = 1, wg_sleepers = 0,
      workers = [\<lparr>pc = InBody, todo = [1::nat]\<rparr>], waiters = [], drained = [],
      drain_done = False\<rparr> = Blocks \<and>
   ch_cap (Errors \<lparr>Errors = \<lparr>ch_cap = 0, ch_buf = [], ch_closed = False\<rparr>,
      semaphore = \<lparr>ch_cap = 1, ch_buf = [True], ch_closed = False\<rparr>, wg = 1, wg_sleepers = 0,
      workers = [\<lparr>pc = InBody, todo = [1::nat]\<rparr>], waiters = [], drained = [],
      drain_done = False\<rparr>) = 0 \<and>
   \<not> drain_done \<lparr>Errors = \<lparr>ch_cap = 0, ch_buf = [], ch_closed = False\<rparr>,
      semaphore = \<lparr>ch_cap = 1, ch_buf = [True], ch_closed = False\<rparr>, wg = 1, wg_sleepers = 0,
      workers = [\<lparr>pc = InBody, todo = [1::nat]\<rparr>], waiters = [], drained = [],
      drain_done = False\<rparr>"
proof -
  let ?st = "\<lparr>Errors = \<lparr>ch_cap = 0, ch_buf = [], ch_closed = False\<rparr>,
      semaphore = \<lparr>ch_cap = 1, ch_buf = [True], ch_closed = False\<rparr>, wg = 1, wg_sleepers = 0,
      workers = [\<lparr>pc = InBody, todo = [1::nat]\<rparr>], waiters = [], drained = [],
      drain_done = False\<rparr>"
  let ?st3 = "\<lparr>Errors = \<lparr>ch_cap = 0, ch_buf = [], ch_closed = False\<rparr>,
      semaphore = \<lparr>ch_cap = 1, ch_buf = [True], ch_closed = False\<rparr>, wg = 1, wg_sleepers = 0,
      workers = [\<lparr>pc = InBody, todo = []\<rparr>], waiters = [], drained = [1::nat],
      drain_done = False\<rparr>"
  have run: "play 1 [CallRun [1::nat], Acquire 0] = Ok ?st" by code_simp
  have deliver: "step (Deliver 0) ?st = Ok ?st3" by code_simp
  have push: "step (Push 0) ?st = Blocks" by code_simp
  have changed: "(0::nat) < length (workers ?st)"
    "todo (workers ?st3 ! 0) \<noteq> todo (workers ?st ! 0)" by simp_all
  from errors_unbuffered[OF run] deliver changed
  have "ch_cap (Errors ?st) = 0 \<and> \<not> drain_done ?st" by blast
  with run deliver push show ?thesis by blast
qed

end
